theory Spec2Isabelle
  imports Complex_Main "HOL-Library.Word" "HOL-Library.Sublist" "HOL-Library.AList"
begin

section \<open>JavaScript strings\<close>

text \<open>
  A JavaScript string is a sequence of UTF-16 code units; \<open>length\<close>, \<open>slice\<close> and
  \<open>indexOf\<close> count code units. The regular expressions of the chunker carry the
  \<open>u\<close> flag, so \<open>\S\<close> consumes one code point (a surrogate pair counts once), while
  \<open>\s\<close> only ever matches a single code unit of the Basic Multilingual Plane.
\<close>

type_synonym jschar = "16 word"
type_synonym jsstring = "jschar list"

definition NL :: jschar where "NL = 0x0A"
definition SP :: jschar where "SP = 0x20"
definition HASH :: jschar where "HASH = 0x23"

text \<open>The class \<open>\s\<close> of ECMAScript: WhiteSpace and LineTerminator.\<close>

definition is_ws :: "jschar \<Rightarrow> bool" where
  "is_ws c \<longleftrightarrow>
     c = 0x09 \<or> c = 0x0A \<or> c = 0x0B \<or> c = 0x0C \<or> c = 0x0D \<or> c = 0x20 \<or> c = 0xA0 \<or>
     c = 0x1680 \<or> (0x2000 \<le> c \<and> c \<le> 0x200A) \<or> c = 0x2028 \<or> c = 0x2029 \<or>
     c = 0x202F \<or> c = 0x205F \<or> c = 0x3000 \<or> c = 0xFEFF"

definition is_line_terminator :: "jschar \<Rightarrow> bool" where
  "is_line_terminator c \<longleftrightarrow> c = 0x0A \<or> c = 0x0D \<or> c = 0x2028 \<or> c = 0x2029"

definition is_digit :: "jschar \<Rightarrow> bool" where
  "is_digit c \<longleftrightarrow> 0x30 \<le> c \<and> c \<le> 0x39"

definition is_high_surrogate :: "jschar \<Rightarrow> bool" where
  "is_high_surrogate c \<longleftrightarrow> 0xD800 \<le> c \<and> c \<le> 0xDBFF"

definition is_low_surrogate :: "jschar \<Rightarrow> bool" where
  "is_low_surrogate c \<longleftrightarrow> 0xDC00 \<le> c \<and> c \<le> 0xDFFF"

text \<open>\<open>String.prototype.trim\<close>.\<close>

definition trim :: "jsstring \<Rightarrow> jsstring" where
  "trim s = rev (dropWhile is_ws (rev (dropWhile is_ws s)))"

text \<open>\<open>s.split('\n')\<close>: never empty, \<open>''.split('\n') = ['']\<close>.\<close>

fun split_nl :: "jsstring \<Rightarrow> jsstring list" where
  "split_nl [] = [[]]"
| "split_nl (c # cs) =
     (if c = NL then [] # split_nl cs
      else (case split_nl cs of [] \<Rightarrow> [[c]] | p # ps \<Rightarrow> (c # p) # ps))"

text \<open>
  \<open>s.indexOf(needle, from)\<close>: the least index \<open>k\<close>, not below the clamped \<open>from\<close>,
  at which \<open>needle\<close> occurs in \<open>s\<close>, and \<open>-1\<close> when there is none.
\<close>

fun index_scan :: "jsstring \<Rightarrow> jsstring \<Rightarrow> nat \<Rightarrow> int" where
  "index_scan needle [] k = (if needle = [] then int k else - 1)"
| "index_scan needle (c # cs) k =
     (if prefix needle (c # cs) then int k else index_scan needle cs (Suc k))"

definition indexOf :: "jsstring \<Rightarrow> jsstring \<Rightarrow> int \<Rightarrow> int" where
  "indexOf s needle from =
     (let start = min (nat (max from 0)) (length s)
      in index_scan needle (drop start s) start)"

text \<open>\<open>s.slice(-n)\<close> for an integer \<open>n\<close>: the last \<open>n\<close> code units when \<open>n > 0\<close>,
  the whole string when \<open>n \<le> 0\<close> (a relative start of \<open>-0\<close> or a positive start
  clamped by the length is not needed by the chunker, which only calls it with
  \<open>n > 0\<close>).\<close>

definition slice_last :: "jsstring \<Rightarrow> int \<Rightarrow> jsstring" where
  "slice_last s n = (if n \<le> 0 then drop (nat (- n)) s else drop (length s - nat n) s)"

subsection \<open>\<open>RegExp.prototype[Symbol.split]\<close>\<close>

text \<open>
  A matcher answers, for the code unit before the position (if any) and the rest of the
  string from the position on, the length of the match of the expression anchored at that
  position. The loop below is the split algorithm of ECMAScript: \<open>cur\<close> holds, reversed,
  the code units since the end \<open>p\<close> of the last match, \<open>fresh\<close> says that the position
  \<open>q\<close> is \<open>p\<close>. A match that would end at \<open>p\<close> is skipped; none of the six
  expressions can match a low surrogate, so advancing by one code unit and advancing by
  one code point find the same matches.
\<close>

type_synonym matcher = "jschar option \<Rightarrow> jsstring \<Rightarrow> nat option"

function js_split_go :: "matcher \<Rightarrow> bool \<Rightarrow> jschar option \<Rightarrow> jsstring \<Rightarrow> jsstring \<Rightarrow> jsstring list" where
  "js_split_go m fresh prev cur [] = [rev cur]"
| "js_split_go m fresh prev cur (c # cs) =
     (case m prev (c # cs) of
        None \<Rightarrow> js_split_go m False (Some c) (c # cur) cs
      | Some n \<Rightarrow>
          if n = 0 then
            (if fresh then js_split_go m False (Some c) (c # cur) cs
             else rev cur # js_split_go m False (Some c) [c] cs)
          else rev cur #
            js_split_go m True (Some ((c # cs) ! (min n (Suc (length cs)) - 1))) []
              (drop (n - 1) cs))"
  by pat_completeness auto
termination
  by (relation "measure (\<lambda>(m, fresh, prev, cur, s). length s)") auto

definition js_split :: "matcher \<Rightarrow> jsstring \<Rightarrow> jsstring list" where
  "js_split m s = js_split_go m True None [] s"

section \<open>The chunker\<close>

record ChunkConfig =
  chunkSize :: "int option"
  normalize :: "(jsstring \<Rightarrow> jsstring) option"
  overlap :: "int option"

record ChunkOutput =
  endIndex :: int
  startIndex :: int
  ctext :: jsstring
  tokenCount :: int

subsection \<open>The regular expressions\<close>

text \<open>\<open>#{1,6}\s\<close> anchored at the head of the string: a hash is no white space, so the
  run of hashes is matched whole.\<close>

definition hashes_then_ws :: "jsstring \<Rightarrow> bool" where
  "hashes_then_ws s =
     (let k = length (takeWhile (\<lambda>c. c = HASH) s)
      in 1 \<le> k \<and> k \<le> 6 \<and> (case drop k s of [] \<Rightarrow> False | c # _ \<Rightarrow> is_ws c))"

text \<open>\<open>RE_HEADER = /^#{1,6}\s/mu\<close>: with the \<open>m\<close> flag \<open>^\<close> also matches after a line
  terminator, and a line cut at \<open>\n\<close> may still hold the other three.\<close>

fun header_after_terminator :: "jsstring \<Rightarrow> bool" where
  "header_after_terminator [] = False"
| "header_after_terminator (c # cs) =
     ((is_line_terminator c \<and> hashes_then_ws cs) \<or> header_after_terminator cs)"

definition RE_HEADER :: "jsstring \<Rightarrow> bool" where
  "RE_HEADER s \<longleftrightarrow> hashes_then_ws s \<or> header_after_terminator s"

text \<open>\<open>RE_LIST = /^\s*[-*>|]|\d+\.\s/u\<close>: the second alternative is not anchored.\<close>

definition is_list_marker :: "jschar \<Rightarrow> bool" where
  "is_list_marker c \<longleftrightarrow> c = 0x2D \<or> c = 0x2A \<or> c = 0x3E \<or> c = 0x7C"

fun digit_dot_ws :: "jsstring \<Rightarrow> bool" where
  "digit_dot_ws (a # b # c # rest) =
     ((is_digit a \<and> b = 0x2E \<and> is_ws c) \<or> digit_dot_ws (b # c # rest))"
| "digit_dot_ws _ = False"

definition RE_LIST :: "jsstring \<Rightarrow> bool" where
  "RE_LIST s \<longleftrightarrow>
     (case dropWhile is_ws s of [] \<Rightarrow> False | c # _ \<Rightarrow> is_list_marker c) \<or> digit_dot_ws s"

text \<open>\<open>RE_OCR_GARBAGE = /\S{200,}/u\<close>. The string is read code point by code point
  from its head; each code point is white space or not.\<close>

fun code_point_nonws :: "jsstring \<Rightarrow> bool list" where
  "code_point_nonws [] = []"
| "code_point_nonws [c] = [\<not> is_ws c]"
| "code_point_nonws (c # d # cs) =
     (if is_high_surrogate c \<and> is_low_surrogate d then True # code_point_nonws cs
      else (\<not> is_ws c) # code_point_nonws (d # cs))"

fun run_reaches :: "nat \<Rightarrow> nat \<Rightarrow> bool list \<Rightarrow> bool" where
  "run_reaches k n [] = (k \<le> n)"
| "run_reaches k n (b # bs) = (k \<le> n \<or> run_reaches k (if b then Suc n else 0) bs)"

definition RE_OCR_GARBAGE :: "jsstring \<Rightarrow> bool" where
  "RE_OCR_GARBAGE s = run_reaches 200 0 (code_point_nonws s)"

text \<open>The six split levels, each as the length of its match at a position.\<close>

definition ws_run :: "jsstring \<Rightarrow> nat option" where
  "ws_run s = (let n = length (takeWhile is_ws s) in if 1 \<le> n then Some n else None)"

definition split_before_header :: matcher where
  "split_before_header prev s =
     (case s of [] \<Rightarrow> None | c # cs \<Rightarrow> if c = NL \<and> hashes_then_ws cs then Some 0 else None)"

definition split_paragraph :: matcher where
  "split_paragraph prev s =
     (let n = length (takeWhile (\<lambda>c. c = NL) s) in if 2 \<le> n then Some n else None)"

definition split_sentence :: matcher where
  "split_sentence prev s =
     (if prev = Some 0x2E \<or> prev = Some 0x21 \<or> prev = Some 0x3F then ws_run s else None)"

definition split_clause :: matcher where
  "split_clause prev s = (if prev = Some 0x3B \<or> prev = Some 0x2C then ws_run s else None)"

definition split_line :: matcher where
  "split_line prev s = (case s of [] \<Rightarrow> None | c # cs \<Rightarrow> if c = NL then Some 1 else None)"

definition split_space :: matcher where
  "split_space prev s = ws_run s"

definition SPLIT_LEVELS :: "matcher list" where
  "SPLIT_LEVELS =
     [split_before_header, split_paragraph, split_sentence, split_clause, split_line, split_space]"

subsection \<open>The pipeline\<close>

definition isStructuralBreak :: "jsstring \<Rightarrow> jsstring \<Rightarrow> bool" where
  "isStructuralBreak line next \<longleftrightarrow>
     trim line = [] \<or> trim next = [] \<or> RE_HEADER next \<or> RE_LIST next"

fun join_lines :: "jsstring list \<Rightarrow> jsstring" where
  "join_lines [] = []"
| "join_lines [line] = line"
| "join_lines (line # next # rest) =
     line @ (if isStructuralBreak line next then [NL] else [SP]) @ join_lines (next # rest)"

definition unwrapHardBreaks :: "jsstring \<Rightarrow> jsstring" where
  "unwrapHardBreaks s = join_lines (split_nl s)"

function splitAtLevel :: "jsstring \<Rightarrow> int \<Rightarrow> nat \<Rightarrow> jsstring list" where
  "splitAtLevel s maxSize level =
     (if int (length s) \<le> maxSize then [s]
      else if length SPLIT_LEVELS \<le> level then [s]
      else
        (let pieces = js_split (SPLIT_LEVELS ! level) s
         in if length pieces \<le> 1 then splitAtLevel s maxSize (Suc level)
            else concat (map (\<lambda>p.
                   if p \<noteq> [] \<and> int (length p) \<le> maxSize then [p]
                   else if p \<noteq> [] then splitAtLevel p maxSize (Suc level)
                   else []) pieces)))"
  by pat_completeness auto
termination
  by (relation "measure (\<lambda>(s, maxSize, level). length SPLIT_LEVELS - level)") auto

declare splitAtLevel.simps [simp del]

definition mergeSep :: "jsstring \<Rightarrow> jsstring \<Rightarrow> jsstring" where
  "mergeSep cur next =
     (if (cur \<noteq> [] \<and> last cur = NL) \<or> (next \<noteq> [] \<and> hd next = HASH) then [NL] else [SP])"

fun mergePieces_loop :: "jsstring list \<Rightarrow> int \<Rightarrow> jsstring list \<Rightarrow> jsstring \<Rightarrow> jsstring list" where
  "mergePieces_loop [] maxSize merged cur = (if cur \<noteq> [] then merged @ [cur] else merged)"
| "mergePieces_loop (p # ps) maxSize merged cur =
     (let t = trim p in
        if t \<noteq> [] \<and> cur = [] then mergePieces_loop ps maxSize merged t
        else if t \<noteq> [] \<and> int (length (cur @ mergeSep cur t @ t)) \<le> maxSize
          then mergePieces_loop ps maxSize merged (cur @ mergeSep cur t @ t)
        else if t \<noteq> [] then mergePieces_loop ps maxSize (merged @ [cur]) t
        else mergePieces_loop ps maxSize merged cur)"

definition mergePieces :: "jsstring list \<Rightarrow> int \<Rightarrow> jsstring list" where
  "mergePieces pieces maxSize = mergePieces_loop pieces maxSize [] []"

fun buildOutputs_loop :: "jsstring list \<Rightarrow> jsstring \<Rightarrow> int \<Rightarrow> ChunkOutput list" where
  "buildOutputs_loop [] source offset = []"
| "buildOutputs_loop (chunk # chunks) source offset =
     (let needle = take (min 80 (length chunk)) chunk;
          idx = indexOf source needle (max 0 (offset - 10));
          start = (if idx = - 1 then offset else idx)
      in \<lparr>endIndex = start + int (length chunk), startIndex = start, ctext = chunk,
           tokenCount = int (length chunk)\<rparr>
         # buildOutputs_loop chunks source (start + int (length chunk)))"

definition buildOutputs :: "jsstring list \<Rightarrow> jsstring \<Rightarrow> ChunkOutput list" where
  "buildOutputs chunks source = buildOutputs_loop chunks source 0"

fun addOverlap_loop :: "jsstring \<Rightarrow> jsstring list \<Rightarrow> int \<Rightarrow> jsstring list" where
  "addOverlap_loop prev [] overlapSize = []"
| "addOverlap_loop prev (cur # rest) overlapSize =
     (let tail = slice_last prev overlapSize;
          sep = (if (tail \<noteq> [] \<and> last tail = NL) \<or> (cur \<noteq> [] \<and> hd cur = HASH)
                 then [NL] else [SP])
      in (tail @ sep @ cur) # addOverlap_loop cur rest overlapSize)"

definition addOverlap :: "jsstring list \<Rightarrow> int \<Rightarrow> jsstring list" where
  "addOverlap chunks overlapSize =
     (if overlapSize \<le> 0 \<or> length chunks \<le> 1 then chunks
      else (case chunks of [] \<Rightarrow> [] | c # rest \<Rightarrow> c # addOverlap_loop c rest overlapSize))"

definition chunk_kept :: "jsstring \<Rightarrow> bool" where
  "chunk_kept chunk \<longleftrightarrow> 50 \<le> length chunk \<and> \<not> RE_OCR_GARBAGE chunk"

text \<open>\<open>config?.chunkSize ?? 2048\<close>, \<open>config?.overlap ?? 0\<close> and the optional
  \<open>normalize\<close>. The sizes are taken as integers.\<close>

definition cfg_chunkSize :: "ChunkConfig option \<Rightarrow> int" where
  "cfg_chunkSize config =
     (case config of None \<Rightarrow> 2048
      | Some c \<Rightarrow> (case chunkSize c of None \<Rightarrow> 2048 | Some n \<Rightarrow> n))"

definition cfg_overlap :: "ChunkConfig option \<Rightarrow> int" where
  "cfg_overlap config =
     (case config of None \<Rightarrow> 0 | Some c \<Rightarrow> (case overlap c of None \<Rightarrow> 0 | Some n \<Rightarrow> n))"

definition cfg_normalize :: "ChunkConfig option \<Rightarrow> jsstring \<Rightarrow> jsstring" where
  "cfg_normalize config s =
     (case config of None \<Rightarrow> s | Some c \<Rightarrow> (case normalize c of None \<Rightarrow> s | Some f \<Rightarrow> f s))"

definition chunkText :: "jsstring \<Rightarrow> ChunkConfig option \<Rightarrow> ChunkOutput list" where
  "chunkText s config =
     (let maxSize = cfg_chunkSize config;
          overlapSize = cfg_overlap config;
          preprocessed = cfg_normalize config s;
          normalized = unwrapHardBreaks preprocessed;
          pieces = splitAtLevel normalized maxSize 0;
          merged = mergePieces pieces maxSize;
          withOverlap = (if 0 < overlapSize then addOverlap merged overlapSize else merged);
          filtered = filter chunk_kept withOverlap
      in buildOutputs filtered normalized)"

text \<open>What the claims say of a chunk's text: it holds \<open>k\<close> consecutive code points
  none of which is white space.\<close>

definition has_nonws_run :: "nat \<Rightarrow> jsstring \<Rightarrow> bool" where
  "has_nonws_run k s \<longleftrightarrow> sublist (replicate k True) (code_point_nonws s)"

definition ascii :: "string \<Rightarrow> jsstring" where
  "ascii s = map (\<lambda>c. of_nat (of_char c)) s"

definition no_ws :: "jsstring \<Rightarrow> bool" where
  "no_ws s \<longleftrightarrow> (\<forall>c \<in> set s. \<not> is_ws c)"

definition bounded_piece :: "int \<Rightarrow> jsstring \<Rightarrow> bool" where
  "bounded_piece maxSize p \<longleftrightarrow> int (length p) \<le> maxSize \<or> no_ws p"

definition fox_text :: jsstring where
  "fox_text = concat (replicate 4 (ascii ''The quick brown fox jumps over the lazy dog. ''))"

definition size100 :: "ChunkConfig option" where
  "size100 = Some \<lparr>chunkSize = Some 100, normalize = None, overlap = None\<rparr>"

definition size10 :: "ChunkConfig option" where
  "size10 = Some \<lparr>chunkSize = Some 10, normalize = None, overlap = None\<rparr>"

subsection \<open>The filter of \<open>chunkText\<close> and the offsets of \<open>buildOutputs\<close>\<close>

lemma index_scan_ge: "index_scan needle xs k = - 1 \<or> int k \<le> index_scan needle xs k"
  by (induction xs arbitrary: k) (auto, smt (verit) of_nat_Suc)

lemma index_scan_nil: "needle \<noteq> [] \<Longrightarrow> index_scan needle [] k = - 1"
  by simp

lemma indexOf_ge:
  assumes "needle \<noteq> []" "indexOf s needle from \<noteq> - 1"
  shows "from \<le> indexOf s needle from"
proof -
  let ?start = "min (nat (max from 0)) (length s)"
  have r: "indexOf s needle from = index_scan needle (drop ?start s) ?start"
    by (simp add: indexOf_def Let_def)
  have "nat (max from 0) \<le> length s"
  proof (rule ccontr)
    assume "\<not> nat (max from 0) \<le> length s"
    then have "drop ?start s = []" by simp
    with assms r show False by simp
  qed
  then have "from \<le> int ?start" by simp
  moreover have "int ?start \<le> indexOf s needle from"
    using index_scan_ge [of needle "drop ?start s" ?start] assms(2) r by simp
  ultimately show ?thesis by linarith
qed

lemma buildOutputs_loop_starts:
  assumes "\<forall>c \<in> set chunks. 50 \<le> length c"
  shows "sorted_wrt (<) (map startIndex (buildOutputs_loop chunks source offset)) \<and>
         (\<forall>out \<in> set (buildOutputs_loop chunks source offset). offset - 10 \<le> startIndex out)"
  using assms
proof (induction chunks arbitrary: offset)
  case Nil
  then show ?case by simp
next
  case (Cons chunk chunks)
  define needle where "needle = take (min 80 (length chunk)) chunk"
  define idx where "idx = indexOf source needle (max 0 (offset - 10))"
  define start where "start = (if idx = - 1 then offset else idx)"
  have len: "50 \<le> length chunk" using Cons.prems by simp
  then have "needle \<noteq> []" by (auto simp: needle_def)
  then have lo: "offset - 10 \<le> start"
    using indexOf_ge [of needle source "max 0 (offset - 10)"]
    by (auto simp: start_def idx_def)
  have unfold: "buildOutputs_loop (chunk # chunks) source offset =
      \<lparr>endIndex = start + int (length chunk), startIndex = start, ctext = chunk,
        tokenCount = int (length chunk)\<rparr>
      # buildOutputs_loop chunks source (start + int (length chunk))"
    by (simp add: Let_def needle_def idx_def start_def)
  have IH: "sorted_wrt (<) (map startIndex (buildOutputs_loop chunks source (start + int (length chunk))))"
    and IH2: "\<forall>out \<in> set (buildOutputs_loop chunks source (start + int (length chunk))).
          start + int (length chunk) - 10 \<le> startIndex out"
    using Cons.IH [of "start + int (length chunk)"] Cons.prems by auto
  from IH2 len have later: "\<forall>out \<in> set (buildOutputs_loop chunks source (start + int (length chunk))).
          start < startIndex out"
    by fastforce
  show ?case
    unfolding unfold using IH later lo IH2 len by fastforce
qed

lemma buildOutputs_loop_end:
  "\<forall>out \<in> set (buildOutputs_loop chunks source offset).
     endIndex out = startIndex out + int (length (ctext out)) \<and> tokenCount out = int (length (ctext out))"
  by (induction chunks arbitrary: offset) (auto simp: Let_def)

lemma buildOutputs_loop_texts: "map ctext (buildOutputs_loop chunks source offset) = chunks"
  by (induction chunks arbitrary: offset) (auto simp: Let_def)

lemma chunkText_texts_kept: "\<forall>out \<in> set (chunkText s config). chunk_kept (ctext out)"
proof -
  have "\<exists>xs src. chunkText s config = buildOutputs (filter chunk_kept xs) src"
    unfolding chunkText_def Let_def by blast
  then obtain xs src where e: "chunkText s config = buildOutputs (filter chunk_kept xs) src" by blast
  have "set (map ctext (chunkText s config)) \<subseteq> {c. chunk_kept c}"
    unfolding e buildOutputs_def buildOutputs_loop_texts by auto
  then show ?thesis by auto
qed


subsection \<open>The garbage guard finds exactly the runs of 200 code points\<close>

lemma prefix_replicate_Cons:
  "prefix (replicate k True) (b # bs) \<longleftrightarrow> k = 0 \<or> (b \<and> prefix (replicate (k - 1) True) bs)"
  by (cases k) auto

lemma prefix_replicate_mono: "prefix (replicate k True) bs \<Longrightarrow> j \<le> k \<Longrightarrow> prefix (replicate j True) bs"
  by (metis prefix_order.trans replicate_add le_Suc_ex prefixI)

lemma run_reaches_iff:
  "run_reaches k n bs \<longleftrightarrow>
     k \<le> n \<or> prefix (replicate (k - n) True) bs \<or> sublist (replicate k True) bs"
proof (induction bs arbitrary: n)
  case Nil
  then show ?case by auto
next
  case (Cons b bs)
  let ?R = "replicate k True"
  show ?case
  proof (cases "k \<le> n")
    case True
    then show ?thesis by simp
  next
    case False
    then have kn: "n < k" by simp
    have sub: "sublist ?R (b # bs) \<longleftrightarrow> prefix ?R (b # bs) \<or> sublist ?R bs"
      by (rule sublist_Cons_right)
    show ?thesis
    proof (cases b)
      case True
      have l: "run_reaches k n (b # bs) \<longleftrightarrow>
          k \<le> Suc n \<or> prefix (replicate (k - Suc n) True) bs \<or> sublist ?R bs"
        using kn True Cons.IH [of "Suc n"] by simp
      have a: "prefix (replicate (k - n) True) (b # bs) \<longleftrightarrow> prefix (replicate (k - Suc n) True) bs"
        using kn True by (simp add: prefix_replicate_Cons)
      have "prefix ?R (b # bs) \<Longrightarrow> prefix (replicate (k - n) True) (b # bs)"
        by (rule prefix_replicate_mono) auto
      with a have c: "prefix ?R (b # bs) \<Longrightarrow> prefix (replicate (k - Suc n) True) bs" by simp
      have d: "k \<le> Suc n \<Longrightarrow> prefix (replicate (k - Suc n) True) bs" by simp
      show ?thesis unfolding l a sub using c d kn by auto
    next
      case False
      have l: "run_reaches k n (b # bs) \<longleftrightarrow>
          k \<le> 0 \<or> prefix (replicate (k - 0) True) bs \<or> sublist ?R bs"
        using kn False Cons.IH [of 0] by simp
      have a: "\<not> prefix (replicate (k - n) True) (b # bs)"
        using kn False by (simp add: prefix_replicate_Cons)
      have b: "\<not> prefix ?R (b # bs)"
        using kn False by (simp add: prefix_replicate_Cons)
      have c: "prefix ?R bs \<Longrightarrow> sublist ?R bs"
        by (simp add: prefix_imp_sublist)
      show ?thesis unfolding l sub using a b c kn by auto
    qed
  qed
qed

lemma RE_OCR_GARBAGE_iff: "RE_OCR_GARBAGE s \<longleftrightarrow> has_nonws_run 200 s"
  unfolding RE_OCR_GARBAGE_def has_nonws_run_def run_reaches_iff
  using prefix_imp_sublist by fastforce


subsection \<open>A piece longer than the size holds no white space\<close>

lemma js_split_go_nonempty: "js_split_go m fresh prev cur s \<noteq> []"
  by (induction m fresh prev cur s rule: js_split_go.induct) (auto split: option.splits)

lemma ws_run_None: "ws_run (c # cs) = None \<Longrightarrow> \<not> is_ws c"
  by (auto simp: ws_run_def Let_def split: if_splits)

lemma ws_run_Some: "ws_run s = Some n \<Longrightarrow> 1 \<le> n"
  by (auto simp: ws_run_def Let_def split: if_splits)

lemma split_space_pieces:
  "no_ws cur \<Longrightarrow> \<forall>p \<in> set (js_split_go split_space fresh prev cur s). no_ws p"
proof (induction split_space fresh prev cur s rule: js_split_go.induct)
  case (1 fresh prev cur)
  then show ?case by (simp add: no_ws_def)
next
  case (2 fresh prev cur c cs)
  show ?case
  proof (cases "ws_run (c # cs)")
    case None
    then have "no_ws (c # cur)" using 2(5) ws_run_None by (auto simp: no_ws_def)
    then show ?thesis using 2(1) None by (simp add: split_space_def)
  next
    case (Some n)
    then have n: "n \<noteq> 0" using ws_run_Some by fastforce
    have "no_ws []" by (simp add: no_ws_def)
    then have "\<forall>p \<in> set (js_split_go split_space True (Some ((c # cs) ! (min n (Suc (length cs)) - 1))) []
              (drop (n - 1) cs)). no_ws p"
      using 2(4) Some n by (simp add: split_space_def)
    moreover have "no_ws (rev cur)" using 2(5) by (simp add: no_ws_def)
    ultimately show ?thesis using Some n by (simp add: split_space_def)
  qed
qed

lemma split_space_single:
  "length (js_split_go split_space fresh prev cur s) \<le> 1 \<Longrightarrow> no_ws s"
proof (induction split_space fresh prev cur s rule: js_split_go.induct)
  case (1 fresh prev cur)
  then show ?case by (simp add: no_ws_def)
next
  case (2 fresh prev cur c cs)
  show ?case
  proof (cases "ws_run (c # cs)")
    case None
    then have "\<not> is_ws c" by (rule ws_run_None)
    moreover have "no_ws cs" using 2(1) 2(5) None by (simp add: split_space_def)
    ultimately show ?thesis by (simp add: no_ws_def)
  next
    case (Some n)
    then have n: "n \<noteq> 0" using ws_run_Some by fastforce
    have "2 \<le> length (js_split_go split_space fresh prev cur (c # cs))"
      using Some n js_split_go_nonempty [of split_space True _ "[]" "drop (n - 1) cs"]
      by (simp add: split_space_def Suc_le_eq)
    with 2(5) show ?thesis by simp
  qed
qed


lemma splitAtLevel_pieces:
  "(length SPLIT_LEVELS \<le> level \<Longrightarrow> no_ws s) \<Longrightarrow>
   \<forall>p \<in> set (splitAtLevel s maxSize level). bounded_piece maxSize p"
proof (induction s maxSize level rule: splitAtLevel.induct)
  case (1 s maxSize level)
  show ?case
  proof (cases "int (length s) \<le> maxSize")
    case True
    then show ?thesis by (simp add: splitAtLevel.simps [of s] bounded_piece_def)
  next
    case big: False
    show ?thesis
    proof (cases "length SPLIT_LEVELS \<le> level")
      case True
      then show ?thesis using big 1(3) by (simp add: splitAtLevel.simps [of s] bounded_piece_def)
    next
      case lvl: False
      define pieces where "pieces = js_split (SPLIT_LEVELS ! level) s"
      have last_level: "length SPLIT_LEVELS \<le> Suc level \<Longrightarrow> SPLIT_LEVELS ! level = split_space"
        using lvl by (auto simp: SPLIT_LEVELS_def less_Suc_eq numeral_eq_Suc)
      show ?thesis
      proof (cases "length pieces \<le> 1")
        case True
        have "length SPLIT_LEVELS \<le> Suc level \<Longrightarrow> no_ws s"
          using True last_level split_space_single [of True None "[]" s]
          by (simp add: pieces_def js_split_def)
        then have "\<forall>p \<in> set (splitAtLevel s maxSize (Suc level)). bounded_piece maxSize p"
          using 1(1) [OF big lvl pieces_def True] by blast
        then show ?thesis using big lvl True
          by (simp add: splitAtLevel.simps [of s maxSize level] pieces_def [symmetric])
      next
        case False
        define f where "f = (\<lambda>p. if p \<noteq> [] \<and> int (length p) \<le> maxSize then [p]
                   else if p \<noteq> [] then splitAtLevel p maxSize (Suc level) else [])"
        have each: "\<forall>q \<in> set (f p). bounded_piece maxSize q" if p: "p \<in> set pieces" for p
        proof (cases "p \<noteq> [] \<and> int (length p) \<le> maxSize")
          case True
          then show ?thesis by (simp add: f_def bounded_piece_def)
        next
          case np: False
          show ?thesis
          proof (cases "p = []")
            case True
            then show ?thesis by (simp add: f_def)
          next
            case ne: False
            have "length SPLIT_LEVELS \<le> Suc level \<Longrightarrow> no_ws p"
              using p last_level split_space_pieces [of "[]" True None s]
              by (simp add: pieces_def js_split_def no_ws_def)
            then have "\<forall>q \<in> set (splitAtLevel p maxSize (Suc level)). bounded_piece maxSize q"
              using 1(2) [OF big lvl pieces_def False p np ne] by blast
            then show ?thesis using np ne by (simp add: f_def)
          qed
        qed
        have "splitAtLevel s maxSize level = concat (map f pieces)"
          using big lvl False
          by (simp add: splitAtLevel.simps [of s maxSize level] pieces_def [symmetric] f_def)
        then show ?thesis using each by auto
      qed
    qed
  qed
qed

lemma trim_bounded:
  assumes "bounded_piece maxSize p"
  shows "bounded_piece maxSize (trim p)"
proof -
  have "set (trim p) \<subseteq> set p"
  proof
    fix x assume "x \<in> set (trim p)"
    then have "x \<in> set (dropWhile is_ws (rev (dropWhile is_ws p)))" by (simp add: trim_def)
    then have "x \<in> set (rev (dropWhile is_ws p))" by (rule set_dropWhileD)
    then have "x \<in> set (dropWhile is_ws p)" by simp
    then show "x \<in> set p" by (rule set_dropWhileD)
  qed
  moreover have "length (trim p) \<le> length p"
    unfolding trim_def
    by (metis length_rev length_dropWhile_le order_trans)
  ultimately show ?thesis using assms by (auto simp: bounded_piece_def no_ws_def)
qed

lemma mergePieces_loop_bounded:
  "\<forall>p \<in> set pieces. bounded_piece maxSize p \<Longrightarrow>
   \<forall>p \<in> set merged. bounded_piece maxSize p \<Longrightarrow> bounded_piece maxSize cur \<Longrightarrow>
   \<forall>p \<in> set (mergePieces_loop pieces maxSize merged cur). bounded_piece maxSize p"
proof (induction pieces arbitrary: merged cur)
  case Nil
  then show ?case by simp
next
  case (Cons p ps)
  have t: "bounded_piece maxSize (trim p)" using Cons.prems(1) trim_bounded by simp
  have rest: "\<forall>p \<in> set ps. bounded_piece maxSize p" using Cons.prems(1) by simp
  have j: "int (length (cur @ mergeSep cur (trim p) @ trim p)) \<le> maxSize \<Longrightarrow>
      bounded_piece maxSize (cur @ mergeSep cur (trim p) @ trim p)"
    by (simp add: bounded_piece_def)
  have m: "\<forall>p \<in> set (merged @ [cur]). bounded_piece maxSize p"
    using Cons.prems(2,3) by simp
  show ?case
    using Cons.IH [OF rest Cons.prems(2) t] Cons.IH [OF rest Cons.prems(2) j]
      Cons.IH [OF rest m t] Cons.IH [OF rest Cons.prems(2,3)]
    by (simp add: Let_def)
qed

lemma mergePieces_bounded:
  "\<forall>p \<in> set (mergePieces (splitAtLevel s maxSize 0) maxSize). bounded_piece maxSize p"
  unfolding mergePieces_def
  by (rule mergePieces_loop_bounded)
     (use splitAtLevel_pieces [of 0 s maxSize] in \<open>simp_all add: SPLIT_LEVELS_def bounded_piece_def no_ws_def\<close>)


lemma chunkText_no_overlap_bounded:
  assumes "cfg_overlap config \<le> 0"
  shows "\<forall>out \<in> set (chunkText s config). bounded_piece (cfg_chunkSize config) (ctext out)"
proof -
  define src where "src = unwrapHardBreaks (cfg_normalize config s)"
  define merged where "merged = mergePieces (splitAtLevel src (cfg_chunkSize config) 0) (cfg_chunkSize config)"
  have e: "chunkText s config = buildOutputs (filter chunk_kept merged) src"
    using assms by (simp add: chunkText_def Let_def src_def merged_def)
  have "set (map ctext (chunkText s config)) \<subseteq> set merged"
    unfolding e buildOutputs_def buildOutputs_loop_texts by auto
  moreover have "\<forall>p \<in> set merged. bounded_piece (cfg_chunkSize config) p"
    unfolding merged_def by (rule mergePieces_bounded)
  ultimately show ?thesis by auto
qed

text \<open>
  C2, as amended. Every chunk record returned by \<open>chunkText\<close>, for every text and every
  configuration, has a text of at least 50 code units that holds no run of 200 code
  points without white space. When no overlap is asked for (\<open>overlap\<close> absent or not
  positive), the text is at most \<open>chunkSize\<close> code units long unless it holds no white
  space at all: a piece that no split level can divide is passed on as it is.
\<close>

theorem chunkText_chunk_bounds:
  "\<forall>out \<in> set (chunkText s config).
     50 \<le> length (ctext out) \<and> \<not> has_nonws_run 200 (ctext out) \<and>
     (cfg_overlap config \<le> 0 \<longrightarrow>
        int (length (ctext out)) \<le> cfg_chunkSize config \<or> no_ws (ctext out))"
proof
  fix out
  assume out: "out \<in> set (chunkText s config)"
  then have "chunk_kept (ctext out)"
    using chunkText_texts_kept by blast
  then have "50 \<le> length (ctext out)" and "\<not> has_nonws_run 200 (ctext out)"
    by (simp_all add: chunk_kept_def RE_OCR_GARBAGE_iff)
  moreover have "cfg_overlap config \<le> 0 \<longrightarrow>
      int (length (ctext out)) \<le> cfg_chunkSize config \<or> no_ws (ctext out)"
    using chunkText_no_overlap_bounded [of config s] out by (auto simp: bounded_piece_def)
  ultimately show "50 \<le> length (ctext out) \<and> \<not> has_nonws_run 200 (ctext out) \<and>
     (cfg_overlap config \<le> 0 \<longrightarrow>
        int (length (ctext out)) \<le> cfg_chunkSize config \<or> no_ws (ctext out))"
    by blast
qed

theorem chunkText_chunk_bounds_witness:
  "map (\<lambda>out. length (ctext out)) (chunkText fox_text size100) = [89, 89] \<and>
   cfg_overlap size100 \<le> 0 \<and>
   list_all (\<lambda>out. 50 \<le> length (ctext out) \<and> \<not> has_nonws_run 200 (ctext out) \<and>
      (int (length (ctext out)) \<le> 100 \<or> no_ws (ctext out))) (chunkText fox_text size100)"
proof -
  have lens: "map (\<lambda>out. length (ctext out)) (chunkText fox_text size100) = [89, 89]"
    by code_simp
  have ov: "cfg_overlap size100 \<le> 0" and sz: "cfg_chunkSize size100 = 100"
    by (simp_all add: cfg_overlap_def cfg_chunkSize_def size100_def)
  show ?thesis
    using lens ov chunkText_chunk_bounds [of fox_text size100]
    by (simp add: list_all_iff sz)
qed

text \<open>
  C2 as the specification states it, with the upper bound for every configuration, fails:
  sixty letters \<open>a\<close> with \<open>chunkSize = 10\<close> come back as one chunk of sixty code units.
\<close>

theorem chunkText_chunk_size_counterexample:
  "\<not> (\<forall>s config. \<forall>out \<in> set (chunkText s config).
        50 \<le> length (ctext out) \<and> int (length (ctext out)) \<le> cfg_chunkSize config \<and>
        \<not> has_nonws_run 200 (ctext out))"
proof
  assume all: "\<forall>s config. \<forall>out \<in> set (chunkText s config).
        50 \<le> length (ctext out) \<and> int (length (ctext out)) \<le> cfg_chunkSize config \<and>
        \<not> has_nonws_run 200 (ctext out)"
  have lens: "map (\<lambda>out. length (ctext out)) (chunkText (replicate 60 0x61) size10) = [60]"
    by code_simp
  then obtain out where "out \<in> set (chunkText (replicate 60 0x61) size10)"
    and "length (ctext out) = 60"
    by (cases "chunkText (replicate 60 0x61) size10") auto
  with all have "(60::int) \<le> cfg_chunkSize size10" by fastforce
  then show False by (simp add: cfg_chunkSize_def size10_def)
qed

text \<open>
  C8. For every text and configuration the \<open>startIndex\<close> values of the chunks returned by
  \<open>chunkText\<close> are strictly increasing along the list, and each chunk's \<open>endIndex\<close> is its
  \<open>startIndex\<close> plus the length of its text.
\<close>

theorem chunkText_start_index_increasing:
  "sorted_wrt (<) (map startIndex (chunkText s config)) \<and>
   (\<forall>out \<in> set (chunkText s config). endIndex out = startIndex out + int (length (ctext out)))"
proof -
  have "\<exists>xs src. chunkText s config = buildOutputs (filter chunk_kept xs) src"
    unfolding chunkText_def Let_def by blast
  then obtain xs src where e: "chunkText s config = buildOutputs (filter chunk_kept xs) src" by blast
  have "\<forall>c \<in> set (filter chunk_kept xs). 50 \<le> length c" by (simp add: chunk_kept_def)
  from buildOutputs_loop_starts [OF this, of src 0] buildOutputs_loop_end [of "filter chunk_kept xs" src 0]
  show ?thesis unfolding e buildOutputs_def by blast
qed

theorem chunkText_start_index_increasing_witness:
  "map startIndex (chunkText fox_text size100) = [0, 90] \<and>
   sorted_wrt (<) (map startIndex (chunkText fox_text size100)) \<and>
   list_all (\<lambda>out. endIndex out = startIndex out + int (length (ctext out)))
     (chunkText fox_text size100)"
proof -
  have starts: "map startIndex (chunkText fox_text size100) = [0, 90]"
    by code_simp
  show ?thesis
    using chunkText_start_index_increasing [of fox_text size100]
    unfolding list_all_iff starts by simp
qed

section \<open>The database\<close>

text \<open>
  The four tables of the schema, each a list of rows in insertion order, and the
  sequences behind the \<open>bigserial\<close> keys. The two ranking operators belong to the
  database extensions, outside the repository; they are parameters of the state:
  \<open>similarity q e\<close> is \<open>1 - (e <=> q)\<close>, the cosine similarity of a stored embedding
  \<open>e\<close> to the query embedding \<open>q\<close>, and \<open>bm25_distance q t\<close> is
  \<open>t <@> to_bm25query(q)\<close>, negative exactly when the text \<open>t\<close> matches the query.
  Where SQL leaves the order of rows open (ties of an \<open>ORDER BY\<close>, a \<open>LIMIT\<close> with
  no order), the model takes the rows in table order.
\<close>

datatype json = JNull | JBool bool | JNum real | JStr jsstring
  | JArr "json list" | JObj "(jsstring \<times> json) list"

type_synonym metadata = "(jsstring \<times> json) list"
type_synonym embedding = "real list"

record Document =
  d_id :: nat
  d_title :: jsstring
  d_content :: jsstring
  d_contentHash :: jsstring
  d_metadata :: metadata
  d_communityId :: "int option"

record Chunk =
  c_id :: nat
  c_text :: jsstring
  c_textHash :: jsstring
  c_tokenCount :: int
  c_embedding :: embedding

record ChunkSource =
  cs_id :: nat
  cs_chunkId :: nat
  cs_documentId :: nat
  cs_startIndex :: int
  cs_endIndex :: int

record DocumentRelation =
  r_id :: nat
  r_sourceId :: nat
  r_targetId :: nat
  r_relType :: "jsstring option"
  r_weight :: "real option"

record DB =
  documents :: "Document list"
  chunks :: "Chunk list"
  chunkSources :: "ChunkSource list"
  documentRelations :: "DocumentRelation list"
  documents_seq :: nat
  chunks_seq :: nat
  chunkSources_seq :: nat
  documentRelations_seq :: nat
  dimension :: nat
  similarity :: "embedding \<Rightarrow> embedding \<Rightarrow> real"
  bm25_distance :: "jsstring \<Rightarrow> jsstring \<Rightarrow> real"

text \<open>\<open>chunks JOIN chunk_sources ON chunk_sources.chunk_id = chunks.id JOIN documents ON
  documents.id = chunk_sources.document_id\<close>.\<close>

definition chunk_join :: "DB \<Rightarrow> (Chunk \<times> ChunkSource \<times> Document) list" where
  "chunk_join db =
     concat (map (\<lambda>c. concat (map (\<lambda>cs.
        if cs_chunkId cs = c_id c
        then map (\<lambda>d. (c, cs, d)) (filter (\<lambda>d. d_id d = cs_documentId cs) (documents db))
        else []) (chunkSources db))) (chunks db))"

text \<open>\<open>GROUP BY chunks.id, chunks.embedding, chunks.text, documents.title,
  documents.community_id\<close> with \<open>MAX(chunk_sources.document_id)\<close>: one row for each
  chunk and each title and community of a document that holds it.\<close>

type_synonym group_key = "nat \<times> embedding \<times> jsstring \<times> jsstring \<times> int option"

fun upsert_max :: "group_key \<Rightarrow> nat \<Rightarrow> (group_key \<times> nat) list \<Rightarrow> (group_key \<times> nat) list" where
  "upsert_max k v [] = [(k, v)]"
| "upsert_max k v ((k', v') # rest) =
     (if k = k' then (k', max v v') # rest else (k', v') # upsert_max k v rest)"

definition group_newest :: "(Chunk \<times> ChunkSource \<times> Document) list \<Rightarrow> (group_key \<times> nat) list" where
  "group_newest rows =
     foldl (\<lambda>groups (c, cs, d).
        upsert_max (c_id c, c_embedding c, c_text c, d_title d, d_communityId d)
          (cs_documentId cs) groups) [] rows"

section \<open>The search engine\<close>

datatype SearchMode = ModeBm25 | ModeHybrid | ModeVector

datatype ResultMode = bm25 | community | graph | vector

record SearchResult =
  sr_communityId :: "int option"
  sr_documentId :: nat
  sr_id :: nat
  sr_mode :: ResultMode
  sr_relationType :: "jsstring option"
  sr_score :: real
  sr_text :: jsstring
  sr_title :: jsstring

record SearchConfig =
  bm25Weight :: "real option"
  communityBoost :: "real option"
  embed :: "jsstring list \<Rightarrow> embedding list"
  graphChunkLimit :: "nat option"
  graphDecay :: "real option"
  graphHops :: "nat option"
  graphWeight :: "real option"
  limit :: "nat option"
  mode :: "SearchMode option"
  query :: jsstring
  rrfK :: "real option"
  threshold :: "real option"
  vectorQuery :: "jsstring option"
  vectorWeight :: "real option"

text \<open>The statements a search sends to the database, in the order it sends them.\<close>

datatype Statement =
    VectorSelect nat
  | Bm25Select jsstring nat
  | RelatedSelect "nat list" nat
  | GraphChunkSelect "nat list" nat
  | CommunitySelect int nat

definition DEFAULT_GRAPH_CHUNK_LIMIT :: nat where
  "DEFAULT_GRAPH_CHUNK_LIMIT = 200"

text \<open>\<open>arr.sort((a, b) => b.score - a.score)\<close>: a stable sort, largest score first.\<close>

definition sort_by_score :: "SearchResult list \<Rightarrow> SearchResult list" where
  "sort_by_score rs = sort_key (\<lambda>r. - sr_score r) rs"

fun dedup_loop :: "SearchResult list \<Rightarrow> nat \<Rightarrow> jsstring list \<Rightarrow> SearchResult list \<Rightarrow> SearchResult list" where
  "dedup_loop [] lmt seen unique = unique"
| "dedup_loop (r # rs) lmt seen unique =
     (if sr_text r \<notin> set seen
      then (if lmt \<le> length (unique @ [r]) then unique @ [r]
            else dedup_loop rs lmt (seen @ [sr_text r]) (unique @ [r]))
      else dedup_loop rs lmt seen unique)"

definition dedup :: "SearchResult list \<Rightarrow> nat \<Rightarrow> SearchResult list" where
  "dedup results lmt = dedup_loop results lmt [] []"

definition rawVectorSearch ::
    "DB \<Rightarrow> nat \<Rightarrow> embedding \<Rightarrow> real option \<Rightarrow> SearchResult list \<times> Statement list" where
  "rawVectorSearch db lmt queryEmbedding thr =
     (let sim = (\<lambda>e. similarity db queryEmbedding e);
          joined = chunk_join db;
          withThreshold = (case thr of None \<Rightarrow> joined
             | Some t \<Rightarrow> filter (\<lambda>(c, cs, d). t < sim (c_embedding c)) joined);
          groups = group_newest withThreshold;
          rows = take lmt (sort_key (\<lambda>((i, e, t, ti, co), newest). - sim e) groups)
      in (map (\<lambda>((i, e, t, ti, co), newest).
            \<lparr>sr_communityId = co, sr_documentId = newest, sr_id = i, sr_mode = vector,
             sr_relationType = None, sr_score = sim e, sr_text = t, sr_title = ti\<rparr>) rows,
          [VectorSelect lmt]))"

definition rawBm25Search ::
    "DB \<Rightarrow> jsstring \<Rightarrow> nat \<Rightarrow> SearchResult list \<times> Statement list" where
  "rawBm25Search db queryText lmt =
     (let dist = (\<lambda>t. bm25_distance db queryText t);
          matching = filter (\<lambda>(c, cs, d). dist (c_text c) < 0) (chunk_join db);
          groups = group_newest matching;
          rows = take lmt (sort_key (\<lambda>((i, e, t, ti, co), newest). dist t) groups)
      in (map (\<lambda>((i, e, t, ti, co), newest).
            \<lparr>sr_communityId = co, sr_documentId = newest, sr_id = i, sr_mode = bm25,
             sr_relationType = None, sr_score = - dist t, sr_text = t, sr_title = ti\<rparr>) rows,
          [Bm25Select queryText lmt]))"

subsection \<open>Reciprocal rank fusion\<close>

record ScoreEntry =
  bm25Rank :: nat
  result :: SearchResult
  vectorRank :: nat

text \<open>\<open>scoreMap\<close> is a JavaScript \<open>Map\<close>: \<open>set\<close> on a key it holds replaces the value
  and keeps the key's place, \<open>set\<close> on a new key appends. \<open>AList.update\<close> does the
  same on an association list.\<close>

fun enumerate_from :: "nat \<Rightarrow> 'a list \<Rightarrow> (nat \<times> 'a) list" where
  "enumerate_from n [] = []"
| "enumerate_from n (x # xs) = (n, x) # enumerate_from (Suc n) xs"

definition add_vector_ranks :: "SearchResult list \<Rightarrow> (nat \<times> ScoreEntry) list" where
  "add_vector_ranks vectorResults =
     foldl (\<lambda>scoreMap (index, r).
        AList.update (sr_id r) \<lparr>bm25Rank = 0, result = r, vectorRank = index + 1\<rparr> scoreMap)
       [] (enumerate_from 0 vectorResults)"

definition add_bm25_ranks ::
    "(nat \<times> ScoreEntry) list \<Rightarrow> SearchResult list \<Rightarrow> (nat \<times> ScoreEntry) list" where
  "add_bm25_ranks scoreMap0 bm25Results =
     foldl (\<lambda>scoreMap (index, r).
        (case map_of scoreMap (sr_id r) of
           Some existing \<Rightarrow> AList.update (sr_id r) (existing\<lparr>bm25Rank := index + 1\<rparr>) scoreMap
         | None \<Rightarrow> AList.update (sr_id r)
             \<lparr>bm25Rank = index + 1, result = r, vectorRank = 0\<rparr> scoreMap))
       scoreMap0 (enumerate_from 0 bm25Results)"

definition rrfScore :: "real \<Rightarrow> real \<Rightarrow> real \<Rightarrow> ScoreEntry \<Rightarrow> real" where
  "rrfScore vw bw k entry =
     (if 0 < vectorRank entry then vw / (k + real (vectorRank entry)) else 0)
     + (if 0 < bm25Rank entry then bw / (k + real (bm25Rank entry)) else 0)"

definition fuse :: "real \<Rightarrow> real \<Rightarrow> real \<Rightarrow> nat \<Rightarrow> SearchResult list \<Rightarrow> SearchResult list
    \<Rightarrow> SearchResult list" where
  "fuse vw bw k lmt vectorResults bm25Results =
     (let scoreMap = add_bm25_ranks (add_vector_ranks vectorResults) bm25Results;
          merged = map (\<lambda>(i, entry). (result entry)\<lparr>sr_score := rrfScore vw bw k entry\<rparr>) scoreMap
      in take (min lmt (length merged)) (sort_by_score merged))"

definition rawHybridSearch ::
    "DB \<Rightarrow> real \<Rightarrow> nat \<Rightarrow> embedding \<Rightarrow> jsstring \<Rightarrow> real \<Rightarrow> real option \<Rightarrow> real
     \<Rightarrow> SearchResult list \<times> Statement list" where
  "rawHybridSearch db bw lmt queryEmbedding queryText k thr vw =
     (let fetchLimit = lmt * 3;
          (vectorResults, sent1) = rawVectorSearch db fetchLimit queryEmbedding thr;
          (bm25Results, sent2) = rawBm25Search db queryText fetchLimit
      in (fuse vw bw k lmt vectorResults bm25Results, sent1 @ sent2))"

subsection \<open>Graph expansion\<close>

text \<open>The rows of the recursive query \<open>related\<close>.\<close>

record RelatedRow =
  rr_doc_id :: nat
  rr_depth :: nat
  rr_visited :: "nat list"
  rr_path_weight :: real
  rr_rel_type :: "jsstring option"

definition coalesce_weight :: "DocumentRelation \<Rightarrow> real" where
  "coalesce_weight dr = (case r_weight dr of None \<Rightarrow> 1 | Some w \<Rightarrow> w)"

text \<open>The non-recursive term: the two selects joined by \<open>UNION\<close>, which drops
  duplicate rows.\<close>

definition related_base :: "DB \<Rightarrow> real \<Rightarrow> nat list \<Rightarrow> RelatedRow list" where
  "related_base db decay seeds =
     remdups
      (map (\<lambda>dr. \<lparr>rr_doc_id = r_targetId dr, rr_depth = 1, rr_visited = [r_targetId dr],
                  rr_path_weight = coalesce_weight dr * decay, rr_rel_type = r_relType dr\<rparr>)
         (filter (\<lambda>dr. r_sourceId dr \<in> set seeds \<and> r_targetId dr \<notin> set seeds)
            (documentRelations db))
       @
       map (\<lambda>dr. \<lparr>rr_doc_id = r_sourceId dr, rr_depth = 1, rr_visited = [r_sourceId dr],
                  rr_path_weight = coalesce_weight dr * decay, rr_rel_type = r_relType dr\<rparr>)
         (filter (\<lambda>dr. r_targetId dr \<in> set seeds \<and> r_sourceId dr \<notin> set seeds)
            (documentRelations db)))"

text \<open>The recursive term, applied to the rows of the previous round.\<close>

definition other_end :: "DocumentRelation \<Rightarrow> RelatedRow \<Rightarrow> nat" where
  "other_end dr r = (if r_sourceId dr = rr_doc_id r then r_targetId dr else r_sourceId dr)"

definition related_step :: "DB \<Rightarrow> real \<Rightarrow> nat \<Rightarrow> nat list \<Rightarrow> RelatedRow list \<Rightarrow> RelatedRow list" where
  "related_step db decay hops seeds working =
     concat (map (\<lambda>r. concat (map (\<lambda>dr.
        if (r_sourceId dr = rr_doc_id r \<or> r_targetId dr = rr_doc_id r)
           \<and> rr_depth r < hops
           \<and> other_end dr r \<notin> set (rr_visited r)
           \<and> other_end dr r \<notin> set seeds
        then [\<lparr>rr_doc_id = other_end dr r, rr_depth = rr_depth r + 1,
               rr_visited = rr_visited r @ [other_end dr r],
               rr_path_weight = rr_path_weight r * coalesce_weight dr * decay,
               rr_rel_type = (case r_relType dr of Some t \<Rightarrow> Some t | None \<Rightarrow> rr_rel_type r)\<rparr>]
        else []) (documentRelations db))) working)"

text \<open>\<open>WITH RECURSIVE\<close>: rounds of the recursive term until a round is empty. The rows
  of round \<open>d\<close> have depth \<open>d\<close>, and the term asks for a depth below \<open>hops\<close>, so no
  round after round \<open>hops\<close> has a row.\<close>

function related_rounds ::
    "DB \<Rightarrow> real \<Rightarrow> nat \<Rightarrow> nat list \<Rightarrow> nat \<Rightarrow> RelatedRow list \<Rightarrow> RelatedRow list" where
  "related_rounds db decay hops seeds d working =
     (if working = [] \<or> hops \<le> d then working
      else working @ related_rounds db decay hops seeds (Suc d)
             (related_step db decay hops seeds working))"
  by pat_completeness auto
termination
  by (relation "measure (\<lambda>(db, decay, hops, seeds, d, working). hops - d)") auto

declare related_rounds.simps [simp del]

text \<open>\<open>SELECT DISTINCT ON (doc_id) ... ORDER BY doc_id, path_weight DESC\<close>.\<close>

fun distinct_on_doc :: "RelatedRow list \<Rightarrow> RelatedRow list" where
  "distinct_on_doc [] = []"
| "distinct_on_doc (r # rs) =
     r # distinct_on_doc (filter (\<lambda>x. rr_doc_id x \<noteq> rr_doc_id r) rs)"

definition related_best :: "DB \<Rightarrow> real \<Rightarrow> nat \<Rightarrow> nat list \<Rightarrow> RelatedRow list" where
  "related_best db decay hops seeds =
     distinct_on_doc
       (sort_key rr_doc_id
          (sort_key (\<lambda>r. - rr_path_weight r)
             (related_rounds db decay hops seeds 1 (related_base db decay seeds))))"

text \<open>\<open>docWeights\<close>, the \<open>Map\<close> from a reached document to its relation type and
  path weight.\<close>

definition docWeights_of :: "RelatedRow list \<Rightarrow> (nat \<times> jsstring option \<times> real) list" where
  "docWeights_of rows =
     foldl (\<lambda>m row. AList.update (rr_doc_id row) (rr_rel_type row, rr_path_weight row) m) [] rows"

definition graphExpand ::
    "DB \<Rightarrow> nat \<Rightarrow> real \<Rightarrow> nat list \<Rightarrow> nat \<Rightarrow> nat list \<Rightarrow> SearchResult list \<times> Statement list" where
  "graphExpand db chunkLimit decay existingChunkIds hops initialDocIds =
     (if initialDocIds = [] then ([], [])
      else
        (let rows = related_best db decay hops initialDocIds;
             docWeights = docWeights_of rows;
             relatedDocIds = map rr_doc_id rows
         in if relatedDocIds = [] then ([], [RelatedSelect initialDocIds hops])
            else
              (let chunkRows = take chunkLimit
                     (filter (\<lambda>(c, cs, d). cs_documentId cs \<in> set relatedDocIds) (chunk_join db));
                   results = map (\<lambda>(c, cs, d).
                       (let docInfo = map_of docWeights (cs_documentId cs)
                        in \<lparr>sr_communityId = d_communityId d, sr_documentId = cs_documentId cs,
                            sr_id = c_id c, sr_mode = graph,
                            sr_relationType = (case docInfo of None \<Rightarrow> None | Some (t, w) \<Rightarrow> t),
                            sr_score = (case docInfo of None \<Rightarrow> 0 | Some (t, w) \<Rightarrow> w),
                            sr_text = c_text c, sr_title = d_title d\<rparr>))
                     (filter (\<lambda>(c, cs, d). c_id c \<notin> set existingChunkIds) chunkRows)
               in (results,
                   [RelatedSelect initialDocIds hops, GraphChunkSelect relatedDocIds chunkLimit]))))"

subsection \<open>Community expansion\<close>

definition is_community_summary :: "Document \<Rightarrow> bool" where
  "is_community_summary d \<longleftrightarrow>
     map_of (d_metadata d) (ascii ''_ragts_type'') = Some (JStr (ascii ''community_summary''))"

fun first_per_id :: "nat list \<Rightarrow> SearchResult list \<Rightarrow> SearchResult list" where
  "first_per_id seen [] = []"
| "first_per_id seen (r # rs) =
     (if sr_id r \<in> set seen then first_per_id seen rs
      else r # first_per_id (sr_id r # seen) rs)"

definition communityExpand ::
    "DB \<Rightarrow> nat list \<Rightarrow> nat \<Rightarrow> embedding \<Rightarrow> int \<Rightarrow> SearchResult list \<times> Statement list" where
  "communityExpand db existingChunkIds lmt queryEmbedding topCommunityId =
     (let sim = (\<lambda>e. similarity db queryEmbedding e);
          members = filter (\<lambda>(c, cs, d).
             d_communityId d = Some topCommunityId \<and> \<not> is_community_summary d) (chunk_join db);
          groups = group_newest members;
          rows = take lmt (sort_key (\<lambda>((i, e, t, ti, co), newest). - sim e) groups)
      in (first_per_id existingChunkIds
            (map (\<lambda>((i, e, t, ti, co), newest).
               \<lparr>sr_communityId = co, sr_documentId = newest, sr_id = i, sr_mode = community,
                sr_relationType = None, sr_score = sim e, sr_text = t, sr_title = ti\<rparr>) rows),
          [CommunitySelect topCommunityId lmt]))"

subsection \<open>\<open>search\<close>\<close>

text \<open>A JavaScript \<open>Set\<close> keeps its members in the order of their first insertion.\<close>

fun set_add :: "'a \<Rightarrow> 'a list \<Rightarrow> 'a list" where
  "set_add x s = (if x \<in> set s then s else s @ [x])"

definition cfg_mode :: "SearchConfig \<Rightarrow> SearchMode" where
  "cfg_mode config = (case mode config of None \<Rightarrow> ModeHybrid | Some m \<Rightarrow> m)"

definition cfg_limit :: "SearchConfig \<Rightarrow> nat" where
  "cfg_limit config = (case limit config of None \<Rightarrow> 10 | Some n \<Rightarrow> n)"

definition cfg_rrfK :: "SearchConfig \<Rightarrow> real" where
  "cfg_rrfK config = (case rrfK config of None \<Rightarrow> 60 | Some k \<Rightarrow> k)"

definition cfg_embedText :: "SearchConfig \<Rightarrow> jsstring" where
  "cfg_embedText config = (case vectorQuery config of None \<Rightarrow> query config | Some v \<Rightarrow> v)"

definition or_default :: "'a option \<Rightarrow> 'a \<Rightarrow> 'a" where
  "or_default v d = (case v of None \<Rightarrow> d | Some x \<Rightarrow> x)"

text \<open>\<open>const [emb] = await config.embed([embedText])\<close>: \<open>emb\<close> is undefined when the
  list is empty.\<close>

definition first_embedding :: "SearchConfig \<Rightarrow> embedding option" where
  "first_embedding config =
     (case embed config [cfg_embedText config] of [] \<Rightarrow> None | e # rest \<Rightarrow> Some e)"

text \<open>The primary search and \<open>dedup\<close>, once the query embedding is there.\<close>

definition search_primary ::
    "DB \<Rightarrow> SearchConfig \<Rightarrow> embedding option \<Rightarrow> SearchResult list \<times> Statement list" where
  "search_primary db config queryEmbedding =
     (let fetchLimit = cfg_limit config * 3;
          (raw, sent) =
            (case cfg_mode config of
               ModeVector \<Rightarrow>
                 (case queryEmbedding of None \<Rightarrow> ([], [])
                  | Some q \<Rightarrow> rawVectorSearch db fetchLimit q (threshold config))
             | ModeBm25 \<Rightarrow> rawBm25Search db (query config) fetchLimit
             | ModeHybrid \<Rightarrow>
                 (case queryEmbedding of None \<Rightarrow> ([], [])
                  | Some q \<Rightarrow> rawHybridSearch db (or_default (bm25Weight config) 1) fetchLimit q
                      (query config) (cfg_rrfK config) (threshold config)
                      (or_default (vectorWeight config) 1)))
      in (dedup raw (cfg_limit config), sent))"

text \<open>Re-scoring by rank: \<open>r.score = weight / (rrfK + i + 1)\<close> at index \<open>i\<close>.\<close>

definition rank_scores :: "real \<Rightarrow> real \<Rightarrow> SearchResult list \<Rightarrow> SearchResult list" where
  "rank_scores weight k rs =
     map (\<lambda>(i, r). r\<lparr>sr_score := weight / (k + real i + 1)\<rparr>) (enumerate_from 0 rs)"

definition search_graph ::
    "DB \<Rightarrow> SearchConfig \<Rightarrow> SearchResult list \<Rightarrow> SearchResult list \<times> Statement list" where
  "search_graph db config results =
     (let allChunkIds = foldl (\<lambda>s r. set_add (sr_id r) s) [] results;
          docIdSet = foldl (\<lambda>s r. set_add (sr_documentId r) s) [] results;
          (graphResults, sent) = graphExpand db
             (or_default (graphChunkLimit config) DEFAULT_GRAPH_CHUNK_LIMIT)
             (or_default (graphDecay config) 1) allChunkIds
             (or_default (graphHops config) 0) docIdSet
      in (rank_scores (or_default (graphWeight config) 1) (cfg_rrfK config)
            (sort_by_score graphResults), sent))"

text \<open>The dominant community: counts in a \<open>Map\<close>, the first largest count wins, and the
  start value \<open>-1\<close> is what is left when no result has a community.\<close>

definition count_communities :: "SearchResult list \<Rightarrow> (int \<times> nat) list" where
  "count_communities results =
     foldl (\<lambda>m r. (case sr_communityId r of None \<Rightarrow> m
        | Some cid \<Rightarrow> AList.update cid (or_default (map_of m cid) 0 + 1) m)) [] results"

definition top_community :: "(int \<times> nat) list \<Rightarrow> int" where
  "top_community commCounts =
     fst (foldl (\<lambda>(topCommunityId, maxCount) (cid, cnt).
        if maxCount < cnt then (cid, cnt) else (topCommunityId, maxCount)) (- 1, 0) commCounts)"

definition search_community ::
    "DB \<Rightarrow> SearchConfig \<Rightarrow> embedding option \<Rightarrow> SearchResult list
     \<Rightarrow> (SearchResult list \<times> Statement list) option" where
  "search_community db config queryEmbedding0 results =
     (let topCommunityId = top_community (count_communities results)
      in if 0 \<le> topCommunityId then
           (let queryEmbedding =
                  (case queryEmbedding0 of None \<Rightarrow> first_embedding config | Some q \<Rightarrow> Some q)
            in case queryEmbedding of None \<Rightarrow> None
               | Some q \<Rightarrow>
                   (let allChunkIds = foldl (\<lambda>s r. set_add (sr_id r) s) [] results;
                        (communityResults, sent) = communityExpand db allChunkIds
                           (or_default (graphChunkLimit config) DEFAULT_GRAPH_CHUNK_LIMIT)
                           q topCommunityId
                    in Some (rank_scores (or_default (communityBoost config) 0) (cfg_rrfK config)
                               communityResults, sent)))
         else None)"

text \<open>The embedding \<open>search\<close> starts with: none in pure BM25 mode.\<close>

definition search_embedding :: "SearchConfig \<Rightarrow> embedding option" where
  "search_embedding config =
     (if cfg_mode config \<noteq> ModeBm25 then first_embedding config else None)"

definition search :: "DB \<Rightarrow> SearchConfig \<Rightarrow> SearchResult list \<times> Statement list" where
  "search db config =
     (let queryEmbedding = search_embedding config
      in if cfg_mode config \<noteq> ModeBm25 \<and> queryEmbedding = None then ([], [])
         else
           (let (results0, sent0) = search_primary db config queryEmbedding;
                (results1, sent1, expanded1) =
                  (if graphHops config \<noteq> None \<and> 0 < or_default (graphHops config) 0
                   then (let (graphResults, sent) = search_graph db config results0
                         in (results0 @ graphResults, sent0 @ sent, True))
                   else (results0, sent0, False));
                (results2, sent2, expanded2) =
                  (if communityBoost config \<noteq> None \<and> 0 < or_default (communityBoost config) 0
                   then (case search_community db config queryEmbedding results1 of
                           None \<Rightarrow> (results1, sent1, expanded1)
                         | Some (communityResults, sent) \<Rightarrow>
                             (results1 @ communityResults, sent1 @ sent, True))
                   else (results1, sent1, expanded1))
            in (if expanded2 then sort_by_score results2 else results2, sent2)))"

subsection \<open>Ranks, the fused score and the ranked lists of a hybrid search\<close>

text \<open>The rank of a chunk id in a ranked list: the position, counted from 1, of the last
  row that carries the id, and 0 when no row carries it. A list that names every id once
  gives each id its position.\<close>

definition rank_of :: "nat \<Rightarrow> SearchResult list \<Rightarrow> nat" where
  "rank_of i rs =
     (let hits = filter (\<lambda>n. sr_id (rs ! n) = i) [0..<length rs]
      in if hits = [] then 0 else last hits + 1)"

definition last_with_id :: "nat \<Rightarrow> SearchResult list \<Rightarrow> SearchResult option" where
  "last_with_id i rs = (if rank_of i rs = 0 then None else Some (rs ! (rank_of i rs - 1)))"

definition first_with_id :: "nat \<Rightarrow> SearchResult list \<Rightarrow> SearchResult option" where
  "first_with_id i rs = find (\<lambda>r. sr_id r = i) rs"

definition rrf :: "real \<Rightarrow> real \<Rightarrow> real \<Rightarrow> nat \<Rightarrow> nat \<Rightarrow> real" where
  "rrf vw bw k rank_v rank_b =
     (if rank_v = 0 then 0 else vw / (k + real rank_v))
     + (if rank_b = 0 then 0 else bw / (k + real rank_b))"

text \<open>What a hybrid search with the configured limit \<open>L\<close> fuses: \<open>search\<close> hands
  \<open>3 * L\<close> to \<open>rawHybridSearch\<close> as its limit, which asks both raw searches for
  three times that.\<close>

definition hybrid_vector_list :: "DB \<Rightarrow> SearchConfig \<Rightarrow> embedding \<Rightarrow> SearchResult list" where
  "hybrid_vector_list db config q =
     fst (rawVectorSearch db (9 * cfg_limit config) q (threshold config))"

definition hybrid_bm25_list :: "DB \<Rightarrow> SearchConfig \<Rightarrow> SearchResult list" where
  "hybrid_bm25_list db config = fst (rawBm25Search db (query config) (9 * cfg_limit config))"

definition hybrid_fused :: "DB \<Rightarrow> SearchConfig \<Rightarrow> embedding \<Rightarrow> SearchResult list" where
  "hybrid_fused db config q =
     fuse (or_default (vectorWeight config) 1) (or_default (bm25Weight config) 1) (cfg_rrfK config)
       (3 * cfg_limit config) (hybrid_vector_list db config q) (hybrid_bm25_list db config)"

subsection \<open>A small database\<close>

text \<open>Four chunks of one document, with unit embeddings, so that the cosine similarity
  is the dot product; the stand-in for BM25 matches a text that contains the query.\<close>

definition dot :: "embedding \<Rightarrow> embedding \<Rightarrow> real" where
  "dot a b = sum_list (map2 (*) a b)"

definition contains_query :: "jsstring \<Rightarrow> jsstring \<Rightarrow> real" where
  "contains_query q t = (if sublist q t then - 1 else 0)"

definition sample_chunk :: "nat \<Rightarrow> string \<Rightarrow> embedding \<Rightarrow> Chunk" where
  "sample_chunk i t e = \<lparr>c_id = i, c_text = ascii t, c_textHash = ascii t, c_tokenCount = int (length t),
      c_embedding = e\<rparr>"

definition sample_source :: "nat \<Rightarrow> nat \<Rightarrow> nat \<Rightarrow> ChunkSource" where
  "sample_source i c d = \<lparr>cs_id = i, cs_chunkId = c, cs_documentId = d, cs_startIndex = 0, cs_endIndex = 5\<rparr>"

definition sample_doc :: "nat \<Rightarrow> string \<Rightarrow> Document" where
  "sample_doc i t = \<lparr>d_id = i, d_title = ascii t, d_content = ascii t, d_contentHash = ascii t,
      d_metadata = [], d_communityId = None\<rparr>"

definition fusion_db :: DB where
  "fusion_db = \<lparr>documents = [sample_doc 1 ''doc''],
     chunks = [sample_chunk 1 ''alpha'' [1, 0], sample_chunk 2 ''beta'' [4/5, 3/5],
               sample_chunk 3 ''gamma'' [3/5, 4/5], sample_chunk 4 ''delta'' [0, 1]],
     chunkSources = [sample_source 1 1 1, sample_source 2 2 1, sample_source 3 3 1, sample_source 4 4 1],
     documentRelations = [],
     documents_seq = 1, chunks_seq = 4, chunkSources_seq = 4, documentRelations_seq = 0,
     dimension = 2, similarity = dot, bm25_distance = contains_query\<rparr>"

definition fusion_config :: SearchConfig where
  "fusion_config = \<lparr>bm25Weight = None, communityBoost = None, embed = (\<lambda>texts. map (\<lambda>t. [1, 0]) texts),
     graphChunkLimit = None, graphDecay = None, graphHops = None, graphWeight = None,
     limit = Some 1, mode = Some ModeHybrid, query = ascii ''delta'', rrfK = None, threshold = None,
     vectorQuery = None, vectorWeight = None\<rparr>"

definition threshold_config :: SearchConfig where
  "threshold_config = fusion_config\<lparr>threshold := Some (1 / 2), limit := Some 2\<rparr>"

definition silent_config :: SearchConfig where
  "silent_config = fusion_config\<lparr>embed := (\<lambda>texts. [])\<rparr>"

subsection \<open>The score map\<close>

lemma rawVectorSearch_mode: "\<forall>r \<in> set (fst (rawVectorSearch db lmt q thr)). sr_mode r = vector"
  by (auto simp: rawVectorSearch_def Let_def)

lemma rawBm25Search_mode: "\<forall>r \<in> set (fst (rawBm25Search db qt lmt)). sr_mode r = bm25"
  by (auto simp: rawBm25Search_def Let_def)

lemma enumerate_from_append:
  "enumerate_from n (xs @ [x]) = enumerate_from n xs @ [(n + length xs, x)]"
  by (induction xs arbitrary: n) auto

lemma add_vector_ranks_snoc:
  "add_vector_ranks (vs @ [v]) =
     AList.update (sr_id v) \<lparr>bm25Rank = 0, result = v, vectorRank = length vs + 1\<rparr>
       (add_vector_ranks vs)"
  by (simp add: add_vector_ranks_def enumerate_from_append)

lemma add_bm25_ranks_snoc:
  "add_bm25_ranks m (bs @ [b]) =
     (let m' = add_bm25_ranks m bs
      in case map_of m' (sr_id b) of
           Some existing \<Rightarrow> AList.update (sr_id b) (existing\<lparr>bm25Rank := length bs + 1\<rparr>) m'
         | None \<Rightarrow> AList.update (sr_id b)
             \<lparr>bm25Rank = length bs + 1, result = b, vectorRank = 0\<rparr> m')"
  by (simp add: add_bm25_ranks_def enumerate_from_append Let_def)

lemma rank_of_Nil: "rank_of i [] = 0"
  by (simp add: rank_of_def)

lemma rank_of_snoc:
  "rank_of i (rs @ [r]) = (if sr_id r = i then length rs + 1 else rank_of i rs)"
proof -
  have "filter (\<lambda>n. sr_id ((rs @ [r]) ! n) = i) [0..<length rs]
      = filter (\<lambda>n. sr_id (rs ! n) = i) [0..<length rs]"
    by (rule filter_cong) (auto simp: nth_append)
  then show ?thesis
    by (simp add: rank_of_def Let_def)
qed

lemma rank_of_le: "rank_of i rs \<le> length rs"
  by (induction rs rule: rev_induct) (auto simp: rank_of_Nil rank_of_snoc)

lemma rank_of_zero_iff: "rank_of i rs = 0 \<longleftrightarrow> i \<notin> sr_id ` set rs"
  by (induction rs rule: rev_induct) (auto simp: rank_of_Nil rank_of_snoc)

lemma last_with_id_Nil: "last_with_id i [] = None"
  by (simp add: last_with_id_def rank_of_Nil)

lemma last_with_id_snoc:
  "last_with_id i (rs @ [r]) = (if sr_id r = i then Some r else last_with_id i rs)"
proof (cases "sr_id r = i")
  case True
  then show ?thesis by (simp add: last_with_id_def rank_of_snoc)
next
  case False
  have "rank_of i rs \<noteq> 0 \<Longrightarrow> rank_of i rs - 1 < length rs"
    using rank_of_le [of i rs] by simp
  then show ?thesis using False by (auto simp: last_with_id_def rank_of_snoc nth_append)
qed

lemma last_with_id_Some: "last_with_id i rs = Some r \<Longrightarrow> r \<in> set rs \<and> sr_id r = i"
  by (induction rs rule: rev_induct) (auto simp: last_with_id_Nil last_with_id_snoc split: if_splits)

lemma last_with_id_None: "last_with_id i rs = None \<longleftrightarrow> rank_of i rs = 0"
  by (simp add: last_with_id_def)

lemma add_vector_ranks_map:
  "map_of (add_vector_ranks vs) i =
     (case last_with_id i vs of None \<Rightarrow> None
      | Some r \<Rightarrow> Some \<lparr>bm25Rank = 0, result = r, vectorRank = rank_of i vs\<rparr>)"
proof (induction vs rule: rev_induct)
  case Nil
  then show ?case by (simp add: add_vector_ranks_def last_with_id_Nil)
next
  case (snoc v vs)
  then show ?case
    by (cases "sr_id v = i")
       (simp_all add: add_vector_ranks_snoc update_conv' last_with_id_snoc rank_of_snoc
          split: option.splits)
qed

lemma add_vector_ranks_distinct: "distinct (map fst (add_vector_ranks vs))"
proof (induction vs rule: rev_induct)
  case Nil
  then show ?case by (simp add: add_vector_ranks_def)
next
  case (snoc v vs)
  then show ?case by (simp only: add_vector_ranks_snoc distinct_update)
qed

lemma add_bm25_ranks_distinct:
  "distinct (map fst m) \<Longrightarrow> distinct (map fst (add_bm25_ranks m bs))"
proof (induction bs rule: rev_induct)
  case Nil
  then show ?case by (simp add: add_bm25_ranks_def)
next
  case (snoc b bs)
  then show ?case
    by (cases "map_of (add_bm25_ranks m bs) (sr_id b)")
       (simp_all add: add_bm25_ranks_snoc distinct_update Let_def)
qed

lemma find_snoc:
  "find P (xs @ [x]) = (case find P xs of Some y \<Rightarrow> Some y | None \<Rightarrow> if P x then Some x else None)"
  by (induction xs) auto


lemma first_with_id_Some: "first_with_id i rs = Some r \<Longrightarrow> r \<in> set rs \<and> sr_id r = i"
  by (auto simp: first_with_id_def find_Some_iff)

lemma add_bm25_ranks_map:
  "map_of (add_bm25_ranks (add_vector_ranks vs) bs) i =
     (case last_with_id i vs of
        Some r \<Rightarrow> Some \<lparr>bm25Rank = rank_of i bs, result = r, vectorRank = rank_of i vs\<rparr>
      | None \<Rightarrow>
         (case first_with_id i bs of None \<Rightarrow> None
          | Some r \<Rightarrow> Some \<lparr>bm25Rank = rank_of i bs, result = r, vectorRank = 0\<rparr>))"
proof (induction bs arbitrary: i rule: rev_induct)
  case Nil
  then show ?case
    by (simp add: add_bm25_ranks_def add_vector_ranks_map first_with_id_def rank_of_Nil split: option.splits)
next
  case (snoc b bs)
  show ?case
  proof (cases "sr_id b = i")
    case False
    then show ?thesis
      using snoc [of i]
      by (simp add: add_bm25_ranks_snoc Let_def update_conv' first_with_id_def find_snoc rank_of_snoc
          split: option.splits)
  next
    case True
    then show ?thesis
      using snoc [of i]
      by (auto simp add: add_bm25_ranks_snoc Let_def update_conv' first_with_id_def find_snoc rank_of_snoc
          split: option.splits)
  qed
qed

lemma fuse_row:
  assumes "r \<in> set (fuse vw bw k lmt vs bs)"
  shows "\<exists>r0. r = r0\<lparr>sr_score := rrf vw bw k (rank_of (sr_id r) vs) (rank_of (sr_id r) bs)\<rparr> \<and>
     (if sr_id r \<in> sr_id ` set vs then r0 \<in> set vs else r0 \<in> set bs)"
proof -
  define scoreMap where "scoreMap = add_bm25_ranks (add_vector_ranks vs) bs"
  have "r \<in> set (map (\<lambda>(i, entry). (result entry)\<lparr>sr_score := rrfScore vw bw k entry\<rparr>) scoreMap)"
    using assms set_take_subset
    by (fastforce simp: fuse_def Let_def scoreMap_def sort_by_score_def)
  then obtain i e where ie: "(i, e) \<in> set scoreMap"
    and r: "r = (result e)\<lparr>sr_score := rrfScore vw bw k e\<rparr>"
    by auto
  have "distinct (map fst scoreMap)"
    unfolding scoreMap_def by (intro add_bm25_ranks_distinct add_vector_ranks_distinct)
  with ie have m: "map_of scoreMap i = Some e" by simp
  show ?thesis
  proof (cases "last_with_id i vs")
    case (Some r0)
    then have e: "e = \<lparr>bm25Rank = rank_of i bs, result = r0, vectorRank = rank_of i vs\<rparr>"
      using m by (simp add: scoreMap_def add_bm25_ranks_map)
    have r0: "r0 \<in> set vs" "sr_id r0 = i" using last_with_id_Some [OF Some] by simp_all
    then have "sr_id r = i" by (simp add: r e)
    moreover have "i \<in> sr_id ` set vs" using r0 by auto
    ultimately show ?thesis
      by (intro exI [of _ r0]) (simp add: r e rrfScore_def rrf_def r0)
  next
    case None
    then have nv: "rank_of i vs = 0" by (simp add: last_with_id_None)
    from None m obtain r0 where f: "first_with_id i bs = Some r0"
      and e: "e = \<lparr>bm25Rank = rank_of i bs, result = r0, vectorRank = 0\<rparr>"
      by (auto simp: scoreMap_def add_bm25_ranks_map split: option.splits)
    have r0: "r0 \<in> set bs" "sr_id r0 = i" using first_with_id_Some [OF f] by simp_all
    then have "sr_id r = i" by (simp add: r e)
    moreover have "i \<notin> sr_id ` set vs" using nv by (simp add: rank_of_zero_iff)
    ultimately show ?thesis
      by (intro exI [of _ r0]) (simp add: r e rrfScore_def rrf_def r0 nv)
  qed
qed



lemma rawHybridSearch_eq:
  "rawHybridSearch db bw lmt q qt k thr vw =
    (fuse vw bw k lmt (fst (rawVectorSearch db (lmt * 3) q thr)) (fst (rawBm25Search db qt (lmt * 3))),
     [VectorSelect (lmt * 3), Bm25Select qt (lmt * 3)])"
  by (simp add: rawHybridSearch_def rawVectorSearch_def rawBm25Search_def Let_def)

lemma dedup_loop_subset: "set (dedup_loop rs lmt seen unique) \<subseteq> set unique \<union> set rs"
  by (induction rs lmt seen unique rule: dedup_loop.induct) auto

lemma dedup_subset: "set (dedup rs lmt) \<subseteq> set rs"
  using dedup_loop_subset [of rs lmt "[]" "[]"] by (simp add: dedup_def)



lemma search_primary_hybrid:
  assumes "cfg_mode config = ModeHybrid"
  shows "search_primary db config (Some q) =
     (dedup (hybrid_fused db config q) (cfg_limit config),
      [VectorSelect (9 * cfg_limit config), Bm25Select (query config) (9 * cfg_limit config)])"
  using assms
  by (simp add: search_primary_def rawHybridSearch_eq hybrid_fused_def hybrid_vector_list_def
      hybrid_bm25_list_def mult.commute)











text \<open>
  C4, as amended. A row of the fused primary results of a hybrid search carries
  \<open>mode = vector\<close> when its chunk id is in the vector ranked list, whether or not it is
  in the BM25 list too, and \<open>mode = bm25\<close> when its chunk id is in the BM25 list only.
\<close>

theorem search_hybrid_mode:
  assumes "cfg_mode config = ModeHybrid"
  shows "\<forall>r \<in> set (fst (search_primary db config (Some q))).
     sr_mode r = (if sr_id r \<in> sr_id ` set (hybrid_vector_list db config q) then vector else bm25)"
proof
  fix r assume "r \<in> set (fst (search_primary db config (Some q)))"
  then have "r \<in> set (hybrid_fused db config q)"
    using dedup_subset by (auto simp: search_primary_hybrid [OF assms])
  then obtain r0 where r: "r = r0\<lparr>sr_score := rrf (or_default (vectorWeight config) 1)
        (or_default (bm25Weight config) 1) (cfg_rrfK config)
        (rank_of (sr_id r) (hybrid_vector_list db config q))
        (rank_of (sr_id r) (hybrid_bm25_list db config))\<rparr>"
    and r0: "if sr_id r \<in> sr_id ` set (hybrid_vector_list db config q)
       then r0 \<in> set (hybrid_vector_list db config q) else r0 \<in> set (hybrid_bm25_list db config)"
    unfolding hybrid_fused_def using fuse_row by blast
  have m: "sr_mode r = sr_mode r0" by (subst r) simp
  show "sr_mode r = (if sr_id r \<in> sr_id ` set (hybrid_vector_list db config q) then vector else bm25)"
    using r0 rawVectorSearch_mode rawBm25Search_mode
    unfolding m hybrid_vector_list_def hybrid_bm25_list_def
    by (auto split: if_splits)
qed

theorem search_hybrid_mode_witness:
  "cfg_mode threshold_config = ModeHybrid \<and>
   map sr_id (hybrid_vector_list fusion_db threshold_config [1, 0]) = [1, 2, 3] \<and>
   map sr_id (fst (search_primary fusion_db threshold_config (Some [1, 0]))) = [1, 4] \<and>
   list_all (\<lambda>r. sr_mode r = (if sr_id r \<in> {1, 2, 3} then vector else bm25))
     (fst (search_primary fusion_db threshold_config (Some [1, 0])))"
proof -
  have m: "cfg_mode threshold_config = ModeHybrid"
    by (simp add: cfg_mode_def threshold_config_def fusion_config_def)
  have v: "map sr_id (hybrid_vector_list fusion_db threshold_config [1, 0]) = [1, 2, 3]"
    by code_simp
  have p: "map sr_id (fst (search_primary fusion_db threshold_config (Some [1, 0]))) = [1, 4]"
    by code_simp
  have ids: "sr_id ` set (hybrid_vector_list fusion_db threshold_config [1, 0]) = {1, 2, 3}"
    using arg_cong [OF v, of set] by simp
  show ?thesis
    using search_hybrid_mode [OF m, of fusion_db "[1, 0]"] v p
    by (simp add: list_all_iff m ids)
qed

text \<open>
  C4 as the specification states it fails: with a similarity threshold of \<open>1/2\<close> the
  fourth chunk is in the BM25 list only, and the search returns it with \<open>mode = bm25\<close>.
\<close>

theorem search_hybrid_mode_counterexample:
  "\<not> (\<forall>r \<in> set (fst (search fusion_db threshold_config)). sr_mode r = vector)"
proof -
  have e: "map (\<lambda>r. (sr_id r, sr_mode r)) (fst (search fusion_db threshold_config))
      = [(1, vector), (4, bm25)]"
    by code_simp
  have "(4, bm25) \<in> set (map (\<lambda>r. (sr_id r, sr_mode r)) (fst (search fusion_db threshold_config)))"
    unfolding e by simp
  then obtain r where r: "r \<in> set (fst (search fusion_db threshold_config))"
    and "sr_mode r = bm25"
    by auto
  then have "sr_mode r \<noteq> vector" by simp
  with r show ?thesis by blast
qed

text \<open>
  C10. In vector or hybrid mode, when the caller's \<open>embed\<close> returns the empty list for
  the query text, \<open>search\<close> returns the empty list, whatever the database holds: it sends
  no statement to the database, runs no graph or community expansion and raises nothing.
\<close>

theorem search_without_embedding:
  assumes "cfg_mode config = ModeVector \<or> cfg_mode config = ModeHybrid"
    and "embed config [cfg_embedText config] = []"
  shows "search db config = ([], [])"
  using assms by (auto simp: search_def search_embedding_def first_embedding_def Let_def)

theorem search_without_embedding_witness:
  "(cfg_mode silent_config = ModeVector \<or> cfg_mode silent_config = ModeHybrid) \<and>
   embed silent_config [cfg_embedText silent_config] = [] \<and>
   search fusion_db silent_config = ([], []) \<and>
   snd (search fusion_db fusion_config) = [VectorSelect 9, Bm25Select (ascii ''delta'') 9]"
proof -
  have m: "cfg_mode silent_config = ModeVector \<or> cfg_mode silent_config = ModeHybrid"
    and e: "embed silent_config [cfg_embedText silent_config] = []"
    by (simp_all add: cfg_mode_def silent_config_def fusion_config_def)
  have s: "snd (search fusion_db fusion_config) = [VectorSelect 9, Bm25Select (ascii ''delta'') 9]"
    by code_simp
  show ?thesis
    using search_without_embedding [OF m e, of fusion_db] m e s by simp
qed

subsection \<open>Graph expansion on a chain\<close>


text \<open>Three documents in a chain, one chunk each, the relation from the second to the
  third stored first, and a BM25 search that finds the first.\<close>

definition chain_relation :: "nat \<Rightarrow> nat \<Rightarrow> nat \<Rightarrow> DocumentRelation" where
  "chain_relation i s t = \<lparr>r_id = i, r_sourceId = s, r_targetId = t, r_relType = None, r_weight = None\<rparr>"













lemma foldl_set_add_nil: "foldl (\<lambda>s r. set_add (f r) s) [] [] = []"
  by simp




















section \<open>Community detection\<close>

text \<open>
  \<open>parent\<close> is a \<open>Map\<close> from document ids to document ids; an id it does not hold
  counts as its own root, as \<open>parent.get\<close> returns \<open>undefined\<close> for it. The two
  \<open>while\<close> loops of \<open>find\<close> are recursive functions into \<open>option\<close>, \<open>None\<close> standing
  for a loop that never ends.
\<close>

type_synonym parent_map = "nat \<Rightarrow> nat option"

partial_function (option) find_root :: "parent_map \<Rightarrow> nat \<Rightarrow> nat option" where
  "find_root parent rt =
     (case parent rt of
        None \<Rightarrow> Some rt
      | Some p \<Rightarrow> if p = rt then Some rt else find_root parent p)"

partial_function (option) compress :: "parent_map \<Rightarrow> nat \<Rightarrow> nat \<Rightarrow> parent_map option" where
  "compress parent cur rt =
     (if cur = rt then Some parent
      else compress (parent(cur \<mapsto> rt))
             (case parent cur of None \<Rightarrow> rt | Some next \<Rightarrow> next) rt)"

declare find_root.simps [code] compress.simps [code]

definition find_uf :: "parent_map \<Rightarrow> nat \<Rightarrow> (nat \<times> parent_map) option" where
  "find_uf parent x =
     (case find_root parent x of
        None \<Rightarrow> None
      | Some rt \<Rightarrow>
          (case compress parent x rt of
             None \<Rightarrow> None
           | Some parent' \<Rightarrow> Some (rt, parent')))"

definition union_uf :: "parent_map \<Rightarrow> nat \<Rightarrow> nat \<Rightarrow> parent_map option" where
  "union_uf parent a b =
     (case find_uf parent a of
        None \<Rightarrow> None
      | Some (ra, parent1) \<Rightarrow>
          (case find_uf parent1 b of
             None \<Rightarrow> None
           | Some (rb, parent2) \<Rightarrow>
               Some (if ra \<noteq> rb then parent2(ra \<mapsto> rb) else parent2)))"

fun union_all :: "parent_map \<Rightarrow> (nat \<times> nat) list \<Rightarrow> parent_map option" where
  "union_all parent [] = Some parent"
| "union_all parent ((a, b) # rels) =
     (case union_uf parent a b of None \<Rightarrow> None | Some parent' \<Rightarrow> union_all parent' rels)"

text \<open>\<open>rootToId\<close>: the roots in the order they are first seen, each with the next
  number.\<close>

fun number_roots ::
    "parent_map \<Rightarrow> (nat \<times> nat) list \<Rightarrow> nat list \<Rightarrow> (parent_map \<times> (nat \<times> nat) list) option" where
  "number_roots parent rootToId [] = Some (parent, rootToId)"
| "number_roots parent rootToId (i # ids) =
     (case find_uf parent i of
        None \<Rightarrow> None
      | Some (rt, parent') \<Rightarrow>
          number_roots parent'
            (if map_of rootToId rt = None then rootToId @ [(rt, length rootToId)]
             else rootToId) ids)"

text \<open>\<open>communityToIds\<close>: for each community number the ids of its documents.\<close>

fun collect_members ::
    "parent_map \<Rightarrow> (nat \<times> nat) list \<Rightarrow> (nat \<times> nat list) list \<Rightarrow> nat list
     \<Rightarrow> (nat \<times> nat list) list option" where
  "collect_members parent rootToId communityToIds [] = Some communityToIds"
| "collect_members parent rootToId communityToIds (i # ids) =
     (case find_uf parent i of
        None \<Rightarrow> None
      | Some (rt, parent') \<Rightarrow>
          collect_members parent' rootToId
            (case map_of rootToId rt of
               None \<Rightarrow> communityToIds
             | Some cId \<Rightarrow>
                 (case map_of communityToIds cId of
                    Some existing \<Rightarrow> AList.update cId (existing @ [i]) communityToIds
                  | None \<Rightarrow> AList.update cId [i] communityToIds)) ids)"

text \<open>\<open>ids.slice(j, j + batchSize)\<close> for \<open>j = 0, batchSize, ...\<close> below the length.\<close>

function batches :: "nat \<Rightarrow> 'a list \<Rightarrow> 'a list list" where
  "batches n xs = (if n = 0 \<or> xs = [] then [] else take n xs # batches n (drop n xs))"
  by pat_completeness auto
termination
  by (relation "measure (\<lambda>(n, xs). length xs)") auto

declare batches.simps [simp del]

text \<open>\<open>UPDATE documents SET community_id = cId WHERE id IN (batch)\<close>.\<close>

definition set_community :: "nat \<Rightarrow> nat list \<Rightarrow> Document list \<Rightarrow> Document list" where
  "set_community cId batch docs =
     map (\<lambda>d. if d_id d \<in> set batch then d\<lparr>d_communityId := Some (int cId)\<rparr> else d) docs"

definition write_back :: "(nat \<times> nat list) list \<Rightarrow> Document list \<Rightarrow> Document list" where
  "write_back communityToIds docs =
     foldl (\<lambda>ds (cId, ids). foldl (\<lambda>ds' batch. set_community cId batch ds') ds (batches 500 ids))
       docs communityToIds"

definition detectCommunities :: "DB \<Rightarrow> (nat \<times> DB) option" where
  "detectCommunities db =
     (let allIds = map d_id (documents db)
      in if allIds = [] then Some (0, db)
         else
           (let relRows = map (\<lambda>r. (r_sourceId r, r_targetId r)) (documentRelations db);
                parent0 = foldl (\<lambda>m i. m(i \<mapsto> i)) Map.empty allIds
            in case union_all parent0 relRows of
                 None \<Rightarrow> None
               | Some parent1 \<Rightarrow>
                   (case number_roots parent1 [] allIds of
                      None \<Rightarrow> None
                    | Some (parent2, rootToId) \<Rightarrow>
                        (case collect_members parent2 rootToId [] allIds of
                           None \<Rightarrow> None
                         | Some communityToIds \<Rightarrow>
                             Some (length rootToId,
                                   db\<lparr>documents := write_back communityToIds (documents db)\<rparr>)))))"

text \<open>What the claims say of communities: two documents are linked when a path of
  relations, read in either direction, leads from one to the other.\<close>

definition undirected :: "DocumentRelation list \<Rightarrow> (nat \<times> nat) set" where
  "undirected rels =
     (\<lambda>r. (r_sourceId r, r_targetId r)) ` set rels \<union> (\<lambda>r. (r_targetId r, r_sourceId r)) ` set rels"

definition linked :: "DocumentRelation list \<Rightarrow> nat \<Rightarrow> nat \<Rightarrow> bool" where
  "linked rels a b \<longleftrightarrow> (a, b) \<in> (undirected rels)\<^sup>*"

definition component_of :: "DB \<Rightarrow> nat \<Rightarrow> nat set" where
  "component_of db a = {b \<in> d_id ` set (documents db). linked (documentRelations db) a b}"

definition components :: "DB \<Rightarrow> nat set set" where
  "components db = component_of db ` d_id ` set (documents db)"

subsection \<open>The forest behind \<open>parent\<close>\<close>

text \<open>\<open>reph parent x r n\<close>: following \<open>parent\<close> from \<open>x\<close> reaches the root \<open>r\<close> in
  \<open>n\<close> steps. The invariant says that every id reaches a root, and \<open>rep_of\<close> names
  it.\<close>

inductive reph :: "parent_map \<Rightarrow> nat \<Rightarrow> nat \<Rightarrow> nat \<Rightarrow> bool" for parent where
  at_root: "parent x = None \<or> parent x = Some x \<Longrightarrow> reph parent x x 0"
| up: "parent x = Some p \<Longrightarrow> p \<noteq> x \<Longrightarrow> reph parent p r n \<Longrightarrow> reph parent x r (Suc n)"

definition uf_inv :: "parent_map \<Rightarrow> bool" where
  "uf_inv parent \<longleftrightarrow> (\<forall>x. \<exists>r n. reph parent x r n)"

definition rep_of :: "parent_map \<Rightarrow> nat \<Rightarrow> nat" where
  "rep_of parent x = (THE r. \<exists>n. reph parent x r n)"

definition is_root :: "parent_map \<Rightarrow> nat \<Rightarrow> bool" where
  "is_root parent x \<longleftrightarrow> parent x = None \<or> parent x = Some x"

definition same_reps :: "parent_map \<Rightarrow> parent_map \<Rightarrow> bool" where
  "same_reps parent parent' \<longleftrightarrow> uf_inv parent' \<and> (\<forall>y. rep_of parent' y = rep_of parent y)"

definition pair_conn :: "(nat \<times> nat) list \<Rightarrow> nat \<Rightarrow> nat \<Rightarrow> bool" where
  "pair_conn ps a b \<longleftrightarrow> (a, b) \<in> (set ps \<union> (set ps)\<inverse>)\<^sup>*"

definition reps_match :: "parent_map \<Rightarrow> (nat \<times> nat) list \<Rightarrow> bool" where
  "reps_match parent ps \<longleftrightarrow>
     uf_inv parent \<and> (\<forall>x y. rep_of parent x = rep_of parent y \<longleftrightarrow> pair_conn ps x y)"

definition well_numbered :: "(nat \<times> nat) list \<Rightarrow> bool" where
  "well_numbered rootToId \<longleftrightarrow>
     map snd rootToId = [0..<length rootToId] \<and> distinct (map fst rootToId)"

definition members :: "(nat \<times> nat list) list \<Rightarrow> nat \<Rightarrow> nat set" where
  "members communityToIds c = (case map_of communityToIds c of None \<Rightarrow> {} | Some l \<Rightarrow> set l)"

definition assign_doc :: "(nat \<times> nat list) list \<Rightarrow> Document \<Rightarrow> Document" where
  "assign_doc c2i d =
     foldl (\<lambda>d' (c, l). if d_id d' \<in> set l then d'\<lparr>d_communityId := Some (int c)\<rparr> else d') d c2i"

text \<open>Five documents; the relations join 1, 2 and 4, and 3 and 5.\<close>

definition uf_db :: DB where
  "uf_db = \<lparr>documents = [sample_doc 1 ''a'', sample_doc 2 ''b'', sample_doc 3 ''c'', sample_doc 4 ''d'', sample_doc 5 ''e''],
     chunks = [], chunkSources = [],
     documentRelations = [chain_relation 1 1 2, chain_relation 2 4 2, chain_relation 3 5 3],
     documents_seq = 5, chunks_seq = 0, chunkSources_seq = 0, documentRelations_seq = 3,
     dimension = 2, similarity = dot, bm25_distance = contains_query\<rparr>"

lemma reph_root: "reph parent x r n \<Longrightarrow> is_root parent r"
  by (induction rule: reph.induct) (auto simp: is_root_def)

lemma reph_det: "reph parent x r n \<Longrightarrow> reph parent x r' n' \<Longrightarrow> r' = r \<and> n' = n"
proof (induction arbitrary: r' n' rule: reph.induct)
  case (at_root x)
  then show ?case by (auto elim: reph.cases)
next
  case (up x p r n)
  from up.prems up.hyps(1,2) obtain m where "reph parent p r' m" "n' = Suc m"
    by (auto elim: reph.cases)
  with up.IH show ?case by auto
qed

lemma rep_of_eq: "reph parent x r n \<Longrightarrow> rep_of parent x = r"
  unfolding rep_of_def using reph_det by blast

lemma rep_of_reph:
  assumes "uf_inv parent"
  shows "\<exists>n. reph parent x (rep_of parent x) n"
proof -
  from assms obtain r n where r: "reph parent x r n" unfolding uf_inv_def by blast
  then have "rep_of parent x = r" by (rule rep_of_eq)
  with r show ?thesis by blast
qed

lemma rep_of_root: "uf_inv parent \<Longrightarrow> is_root parent (rep_of parent x)"
  using rep_of_reph reph_root by blast

lemma rep_of_is_root: "is_root parent x \<Longrightarrow> rep_of parent x = x"
  by (rule rep_of_eq [OF reph.at_root]) (simp add: is_root_def)

lemma find_root_reph: "reph parent x r n \<Longrightarrow> find_root parent x = Some r"
proof (induction rule: reph.induct)
  case (at_root x)
  then show ?case by (subst find_root.simps) auto
next
  case (up x p r n)
  then show ?case by (subst find_root.simps) auto
qed

lemma reph_update:
  assumes c: "reph parent c rt k"
  shows "reph parent y r n \<Longrightarrow> \<exists>m \<le> n. reph (parent(c \<mapsto> rt)) y r m"
proof (induction rule: reph.induct)
  case (at_root x)
  show ?case
  proof (cases "x = c")
    case True
    have "reph parent x x 0" using at_root by (rule reph.at_root)
    then have "rt = x" using c True reph_det by blast
    then have "reph (parent(c \<mapsto> rt)) x x 0" using True by (intro reph.at_root) simp
    then show ?thesis by blast
  next
    case False
    then have "reph (parent(c \<mapsto> rt)) x x 0" using at_root by (intro reph.at_root) simp
    then show ?thesis by blast
  qed
next
  case (up x p r n)
  show ?case
  proof (cases "x = c")
    case True
    have xr: "reph parent x r (Suc n)" using up.hyps by (rule reph.up)
    then have rt: "rt = r" using c True reph_det by blast
    have "is_root parent r" using xr by (rule reph_root)
    moreover have "\<not> is_root parent x" using up.hyps(1,2) by (simp add: is_root_def)
    ultimately have ne: "r \<noteq> x" by auto
    then have "reph (parent(c \<mapsto> rt)) r r 0"
      using True \<open>is_root parent r\<close> by (intro reph.at_root) (auto simp: is_root_def)
    then have "reph (parent(c \<mapsto> rt)) x r (Suc 0)"
      using True rt ne by (intro reph.up [of _ _ r]) auto
    moreover have "Suc 0 \<le> Suc n" by simp
    ultimately show ?thesis by blast
  next
    case False
    from up.IH obtain m where "m \<le> n" "reph (parent(c \<mapsto> rt)) p r m" by blast
    then have "reph (parent(c \<mapsto> rt)) x r (Suc m)"
      using False up.hyps(1,2) by (intro reph.up [of _ _ p]) auto
    moreover have "Suc m \<le> Suc n" using \<open>m \<le> n\<close> by simp
    ultimately show ?thesis by blast
  qed
qed

lemma same_reps_update:
  assumes "uf_inv parent" "reph parent c rt k"
  shows "same_reps parent (parent(c \<mapsto> rt))"
proof -
  have "\<exists>m. reph (parent(c \<mapsto> rt)) y (rep_of parent y) m" for y
    using reph_update [OF assms(2)] rep_of_reph [OF assms(1), of y] by blast
  then have "\<forall>y. \<exists>m. reph (parent(c \<mapsto> rt)) y (rep_of parent y) m" by blast
  then have "uf_inv (parent(c \<mapsto> rt))" and "\<forall>y. rep_of (parent(c \<mapsto> rt)) y = rep_of parent y"
    unfolding uf_inv_def using rep_of_eq by blast+
  then show ?thesis by (simp add: same_reps_def)
qed

lemma same_reps_trans: "same_reps a b \<Longrightarrow> same_reps b c \<Longrightarrow> same_reps a c"
  by (simp add: same_reps_def)

lemma same_reps_refl: "uf_inv a \<Longrightarrow> same_reps a a"
  by (simp add: same_reps_def)

lemma compress_correct:
  "uf_inv parent \<Longrightarrow> reph parent cur rt n \<Longrightarrow>
   \<exists>parent'. compress parent cur rt = Some parent' \<and> same_reps parent parent'"
proof (induction n arbitrary: parent cur rule: less_induct)
  case (less n)
  show ?case
  proof (cases "cur = rt")
    case True
    then show ?thesis
      using less.prems(1) by (subst compress.simps) (simp add: same_reps_refl)
  next
    case False
    with less.prems(2) obtain p n' where p: "parent cur = Some p" "p \<noteq> cur"
      and pr: "reph parent p rt n'" and n: "n = Suc n'"
      by (auto elim: reph.cases)
    let ?parent1 = "parent(cur \<mapsto> rt)"
    have s1: "same_reps parent ?parent1"
      using less.prems by (rule same_reps_update)
    from reph_update [OF less.prems(2) pr] obtain m where m: "m \<le> n'" "reph ?parent1 p rt m"
      by blast
    have "uf_inv ?parent1" using s1 by (simp add: same_reps_def)
    moreover have "m < n" using m(1) n by simp
    ultimately have "\<exists>parent'. compress ?parent1 p rt = Some parent' \<and> same_reps ?parent1 parent'"
      using less.IH m(2) by blast
    then obtain parent' where
      c: "compress ?parent1 p rt = Some parent'" and s2: "same_reps ?parent1 parent'"
      by blast
    have "compress parent cur rt = Some parent'"
      using False p c by (subst compress.simps) simp
    then show ?thesis using same_reps_trans [OF s1 s2] by blast
  qed
qed

lemma find_uf_correct:
  assumes "uf_inv parent"
  shows "\<exists>parent'. find_uf parent x = Some (rep_of parent x, parent') \<and> same_reps parent parent'"
proof -
  from rep_of_reph [OF assms] obtain n where r: "reph parent x (rep_of parent x) n" by blast
  from compress_correct [OF assms r] obtain parent' where
    "compress parent x (rep_of parent x) = Some parent'" "same_reps parent parent'" by blast
  then show ?thesis
    by (simp add: find_uf_def find_root_reph [OF r])
qed

lemma link_reph:
  assumes ra: "is_root parent ra" and rb: "is_root parent rb" and ne: "ra \<noteq> rb"
  shows "reph parent y r n \<Longrightarrow> \<exists>m. reph (parent(ra \<mapsto> rb)) y (if r = ra then rb else r) m"
proof (induction rule: reph.induct)
  case (at_root x)
  show ?case
  proof (cases "x = ra")
    case True
    have "reph (parent(ra \<mapsto> rb)) rb rb 0"
      using rb ne by (intro reph.at_root) (auto simp: is_root_def)
    then have "reph (parent(ra \<mapsto> rb)) ra rb (Suc 0)"
      using ne by (intro reph.up [of _ _ rb]) auto
    then have "\<exists>m. reph (parent(ra \<mapsto> rb)) ra rb m" by blast
    then show ?thesis unfolding True by (simp only: refl if_True)
  next
    case False
    then have "reph (parent(ra \<mapsto> rb)) x x 0" using at_root by (intro reph.at_root) simp
    then have "\<exists>m. reph (parent(ra \<mapsto> rb)) x x m" by blast
    then show ?thesis using False by (simp only: if_False)
  qed
next
  case (up x p r n)
  have "x \<noteq> ra" using ra up.hyps(1,2) by (auto simp: is_root_def)
  moreover from up.IH obtain m where "reph (parent(ra \<mapsto> rb)) p (if r = ra then rb else r) m" by blast
  ultimately have "reph (parent(ra \<mapsto> rb)) x (if r = ra then rb else r) (Suc m)"
    using up.hyps(1,2) by (intro reph.up [of _ _ p]) auto
  then show ?case by blast
qed

lemma link_correct:
  assumes "uf_inv parent" "is_root parent ra" "is_root parent rb" "ra \<noteq> rb"
  shows "uf_inv (parent(ra \<mapsto> rb)) \<and>
     (\<forall>y. rep_of (parent(ra \<mapsto> rb)) y = (if rep_of parent y = ra then rb else rep_of parent y))"
proof -
  have "\<exists>m. reph (parent(ra \<mapsto> rb)) y (if rep_of parent y = ra then rb else rep_of parent y) m" for y
    using link_reph [OF assms(2,3,4)] rep_of_reph [OF assms(1), of y] by blast
  then have a: "\<forall>y. \<exists>m. reph (parent(ra \<mapsto> rb)) y (if rep_of parent y = ra then rb else rep_of parent y) m"
    by blast
  then have "uf_inv (parent(ra \<mapsto> rb))"
    unfolding uf_inv_def by blast
  moreover have "\<forall>y. rep_of (parent(ra \<mapsto> rb)) y = (if rep_of parent y = ra then rb else rep_of parent y)"
    using a rep_of_eq by blast
  ultimately show ?thesis by blast
qed

lemma union_uf_correct:
  assumes "uf_inv parent"
  shows "\<exists>parent'. union_uf parent a b = Some parent' \<and> uf_inv parent' \<and>
     (\<forall>y. rep_of parent' y =
        (if rep_of parent y = rep_of parent a then rep_of parent b else rep_of parent y))"
proof -
  from find_uf_correct [OF assms, of a] obtain parent1 where
    f1: "find_uf parent a = Some (rep_of parent a, parent1)" and s1: "same_reps parent parent1"
    by blast
  then have i1: "uf_inv parent1" and r1: "\<And>y. rep_of parent1 y = rep_of parent y"
    by (simp_all add: same_reps_def)
  from find_uf_correct [OF i1, of b] obtain parent2 where
    f2: "find_uf parent1 b = Some (rep_of parent b, parent2)" and s2: "same_reps parent1 parent2"
    by (auto simp: r1)
  then have i2: "uf_inv parent2" and r2: "\<And>y. rep_of parent2 y = rep_of parent y"
    by (simp_all add: same_reps_def r1)
  show ?thesis
  proof (cases "rep_of parent a = rep_of parent b")
    case True
    then have "union_uf parent a b = Some parent2"
      by (simp add: union_uf_def f1 f2)
    then show ?thesis using i2 r2 True by auto
  next
    case False
    then have u: "union_uf parent a b = Some (parent2(rep_of parent a \<mapsto> rep_of parent b))"
      by (simp add: union_uf_def f1 f2)
    have "is_root parent2 (rep_of parent a)" "is_root parent2 (rep_of parent b)"
      using rep_of_root [OF i2, of a] rep_of_root [OF i2, of b] by (simp_all add: r2)
    from link_correct [OF i2 this False] show ?thesis
      unfolding u by (simp add: r2)
  qed
qed

lemma pair_conn_Nil: "pair_conn [] a b \<longleftrightarrow> a = b"
  by (simp add: pair_conn_def)

lemma pair_conn_snoc:
  "pair_conn (ps @ [(a, b)]) x y \<longleftrightarrow>
     pair_conn ps x y \<or> (pair_conn ps x a \<and> pair_conn ps b y) \<or> (pair_conn ps x b \<and> pair_conn ps a y)"
proof -
  define E where "E = set ps \<union> (set ps)\<inverse>"
  define E' where "E' = set (ps @ [(a, b)]) \<union> (set (ps @ [(a, b)]))\<inverse>"
  have E': "E' = insert (a, b) (insert (b, a) E)"
    by (auto simp: E_def E'_def)
  have fwd: "(x, y) \<in> E\<^sup>* \<or> ((x, a) \<in> E\<^sup>* \<and> (b, y) \<in> E\<^sup>*) \<or> ((x, b) \<in> E\<^sup>* \<and> (a, y) \<in> E\<^sup>*)"
    if "(x, y) \<in> E'\<^sup>*"
    using that
  proof (induction rule: rtrancl_induct)
    case base
    then show ?case by simp
  next
    case (step y z)
    from step.hyps(2) consider "(y, z) \<in> E" | "y = a" "z = b" | "y = b" "z = a"
      by (auto simp: E')
    then show ?case
    proof cases
      case 1
      then show ?thesis using step.IH by (meson rtrancl.rtrancl_into_rtrancl)
    next
      case 2
      then show ?thesis using step.IH by blast
    next
      case 3
      then show ?thesis using step.IH by blast
    qed
  qed
  have sub: "E\<^sup>* \<subseteq> E'\<^sup>*" by (rule rtrancl_mono) (auto simp: E')
  have ab: "(a, b) \<in> E'\<^sup>*" "(b, a) \<in> E'\<^sup>*" by (auto simp: E')
  have bwd: "(x, y) \<in> E'\<^sup>*"
    if "(x, y) \<in> E\<^sup>* \<or> ((x, a) \<in> E\<^sup>* \<and> (b, y) \<in> E\<^sup>*) \<or> ((x, b) \<in> E\<^sup>* \<and> (a, y) \<in> E\<^sup>*)"
    using that sub ab by (meson rtrancl_trans subsetD)
  show ?thesis
    unfolding pair_conn_def E_def [symmetric] E'_def [symmetric] using fwd bwd by blast
qed

lemma union_all_correct:
  "reps_match parent done \<Longrightarrow>
   \<exists>parent'. union_all parent rels = Some parent' \<and> reps_match parent' (done @ rels)"
proof (induction rels arbitrary: parent "done")
  case Nil
  then show ?case by simp
next
  case (Cons ab rels)
  obtain a b where ab: "ab = (a, b)" by (cases ab)
  from Cons.prems have inv: "uf_inv parent"
    and m: "\<And>x y. rep_of parent x = rep_of parent y \<longleftrightarrow> pair_conn done x y"
    by (simp_all add: reps_match_def)
  from union_uf_correct [OF inv, of a b] obtain parent1 where
    u: "union_uf parent a b = Some parent1" and i1: "uf_inv parent1"
    and r1: "\<And>y. rep_of parent1 y =
        (if rep_of parent y = rep_of parent a then rep_of parent b else rep_of parent y)"
    by blast
  have "rep_of parent1 x = rep_of parent1 y \<longleftrightarrow> pair_conn (done @ [(a, b)]) x y" for x y
  proof -
    have "rep_of parent1 x = rep_of parent1 y \<longleftrightarrow>
        rep_of parent x = rep_of parent y
        \<or> (rep_of parent x = rep_of parent a \<and> rep_of parent b = rep_of parent y)
        \<or> (rep_of parent x = rep_of parent b \<and> rep_of parent a = rep_of parent y)"
      unfolding r1 by auto
    then show ?thesis unfolding pair_conn_snoc m .
  qed
  then have "reps_match parent1 (done @ [(a, b)])"
    using i1 by (simp add: reps_match_def)
  from Cons.IH [OF this] obtain parent' where
    "union_all parent1 rels = Some parent'" "reps_match parent' ((done @ [(a, b)]) @ rels)"
    by blast
  then show ?case by (simp add: ab u)
qed

lemma initial_parent:
  "foldl (\<lambda>m i. m(i \<mapsto> i)) m0 ids x = (if x \<in> set ids then Some x else m0 x)"
  by (induction ids arbitrary: m0) auto

lemma initial_reps_match: "reps_match (foldl (\<lambda>m i. m(i \<mapsto> i)) Map.empty ids) []"
proof -
  let ?p = "foldl (\<lambda>m i. m(i \<mapsto> i)) Map.empty ids"
  have root: "is_root ?p x" for x
    by (simp add: is_root_def initial_parent)
  then have "reph ?p x x 0" for x
    by (intro reph.at_root) (simp add: is_root_def)
  then have "uf_inv ?p" unfolding uf_inv_def by blast
  moreover have "rep_of ?p x = x" for x
    using root by (rule rep_of_is_root)
  ultimately show ?thesis by (simp add: reps_match_def pair_conn_Nil)
qed

lemma well_numbered_inj:
  assumes "well_numbered m" "map_of m r = Some c" "map_of m r' = Some c"
  shows "r = r'"
proof -
  have "distinct (map snd m)" using assms(1) by (simp add: well_numbered_def)
  then have "inj_on snd (set m)" by (simp add: distinct_map)
  moreover have "(r, c) \<in> set m" "(r', c) \<in> set m"
    using assms(2,3) by (auto dest: map_of_SomeD)
  ultimately have "(r, c) = (r', c)"
    using inj_onD [of snd "set m" "(r, c)" "(r', c)"] by simp
  then show ?thesis by simp
qed

lemma well_numbered_snoc:
  assumes "well_numbered m" "map_of m r = None"
  shows "well_numbered (m @ [(r, length m)])"
  using assms by (auto simp: well_numbered_def map_of_eq_None_iff)

lemma number_roots_correct:
  "uf_inv parent \<Longrightarrow> well_numbered m \<Longrightarrow>
   \<exists>parent' m'. number_roots parent m ids = Some (parent', m') \<and> same_reps parent parent' \<and>
     well_numbered m' \<and> fst ` set m' = fst ` set m \<union> rep_of parent ` set ids"
proof (induction ids arbitrary: parent m)
  case Nil
  then show ?case by (simp add: same_reps_refl)
next
  case (Cons i ids)
  from find_uf_correct [OF Cons.prems(1), of i] obtain parent1 where
    f: "find_uf parent i = Some (rep_of parent i, parent1)" and s1: "same_reps parent parent1"
    by blast
  define m1 where "m1 = (if map_of m (rep_of parent i) = None
      then m @ [(rep_of parent i, length m)] else m)"
  have w1: "well_numbered m1"
    using Cons.prems(2) well_numbered_snoc by (simp add: m1_def)
  have k1: "fst ` set m1 = fst ` set m \<union> {rep_of parent i}"
    by (auto simp: m1_def map_of_eq_None_iff)
  have i1: "uf_inv parent1" and r1: "\<And>y. rep_of parent1 y = rep_of parent y"
    using s1 by (simp_all add: same_reps_def)
  from Cons.IH [OF i1 w1, of ] obtain parent' m' where
    n: "number_roots parent1 m1 ids = Some (parent', m')" and s2: "same_reps parent1 parent'"
    and w: "well_numbered m'" and k: "fst ` set m' = fst ` set m1 \<union> rep_of parent1 ` set ids"
    by blast
  have "number_roots parent m (i # ids) = Some (parent', m')"
    using n by (simp add: f m1_def)
  moreover have "fst ` set m' = fst ` set m \<union> rep_of parent ` set (i # ids)"
    unfolding k k1 using r1 by auto
  ultimately show ?case
    using same_reps_trans [OF s1 s2] w by blast
qed

lemma collect_members_correct:
  "uf_inv parent \<Longrightarrow>
   \<exists>c2i'. collect_members parent m c2i ids = Some c2i' \<and>
     (distinct (map fst c2i) \<longrightarrow> distinct (map fst c2i')) \<and>
     (\<forall>c. members c2i' c = members c2i c \<union> {i \<in> set ids. map_of m (rep_of parent i) = Some c})"
proof (induction ids arbitrary: parent c2i)
  case Nil
  then show ?case by simp
next
  case (Cons i ids)
  from find_uf_correct [OF Cons.prems(1), of i] obtain parent1 where
    f: "find_uf parent i = Some (rep_of parent i, parent1)" and s1: "same_reps parent parent1"
    by blast
  have i1: "uf_inv parent1" and r1: "\<And>y. rep_of parent1 y = rep_of parent y"
    using s1 by (simp_all add: same_reps_def)
  define c1 where "c1 = (case map_of m (rep_of parent i) of
               None \<Rightarrow> c2i
             | Some cId \<Rightarrow>
                 (case map_of c2i cId of
                    Some existing \<Rightarrow> AList.update cId (existing @ [i]) c2i
                  | None \<Rightarrow> AList.update cId [i] c2i))"
  have d1: "distinct (map fst c2i) \<longrightarrow> distinct (map fst c1)"
    by (simp add: c1_def distinct_update split: option.splits)
  have m1: "members c1 c = members c2i c \<union> (if map_of m (rep_of parent i) = Some c then {i} else {})" for c
    by (auto simp: c1_def members_def update_conv' split: option.splits)
  from Cons.IH [OF i1, of c1] obtain c2i' where
    c: "collect_members parent1 m c1 ids = Some c2i'"
    and d: "distinct (map fst c1) \<longrightarrow> distinct (map fst c2i')"
    and mm: "\<forall>c. members c2i' c = members c1 c \<union> {i \<in> set ids. map_of m (rep_of parent1 i) = Some c}"
    by blast
  have "collect_members parent m c2i (i # ids) = Some c2i'"
    using c by (simp add: f c1_def)
  moreover have "\<forall>c. members c2i' c = members c2i c \<union> {j \<in> set (i # ids). map_of m (rep_of parent j) = Some c}"
    using mm m1 r1 by auto
  ultimately show ?case using d d1 by blast
qed

lemma batches_union: "0 < n \<Longrightarrow> \<Union> (set ` set (batches n xs)) = set xs"
proof (induction n xs rule: batches.induct)
  case (1 n xs)
  show ?case
  proof (cases "xs = []")
    case True
    then show ?thesis by (simp add: batches.simps)
  next
    case False
    then have "\<Union> (set ` set (batches n (drop n xs))) = set (drop n xs)"
      using 1 by simp
    moreover have "batches n xs = take n xs # batches n (drop n xs)"
      using False 1(2) by (subst batches.simps) simp
    moreover have "set (take n xs) \<union> set (drop n xs) = set xs"
      by (metis append_take_drop_id set_append)
    ultimately show ?thesis by simp
  qed
qed

lemma set_community_twice:
  "set_community c b (set_community c a ds) =
     map (\<lambda>d. if d_id d \<in> set a \<union> set b then d\<lparr>d_communityId := Some (int c)\<rparr> else d) ds"
  by (auto simp: set_community_def)

lemma foldl_set_community:
  "foldl (\<lambda>ds' batch. set_community c batch ds') ds bs =
     map (\<lambda>d. if d_id d \<in> \<Union> (set ` set bs) then d\<lparr>d_communityId := Some (int c)\<rparr> else d) ds"
proof (induction bs arbitrary: ds)
  case Nil
  then show ?case by (simp add: map_idI)
next
  case (Cons b bs)
  show ?case
    unfolding foldl_Cons Cons.IH by (auto simp: set_community_def)
qed

lemma assign_doc_id: "d_id (assign_doc c2i d) = d_id d"
  unfolding assign_doc_def by (induction c2i arbitrary: d) (auto split: prod.splits)

lemma assign_doc_snoc:
  "assign_doc (c2i @ [(c, l)]) d =
     (if d_id d \<in> set l then (assign_doc c2i d)\<lparr>d_communityId := Some (int c)\<rparr> else assign_doc c2i d)"
  using assign_doc_id [of c2i d] by (simp add: assign_doc_def)

lemma write_batches:
  "foldl (\<lambda>ds' batch. set_community c batch ds') ds (batches 500 ids) = set_community c ids ds"
  unfolding foldl_set_community by (simp add: batches_union set_community_def)

lemma write_back_alt:
  "write_back c2i docs = foldl (\<lambda>ds (c, ids). set_community c ids ds) docs c2i"
  by (simp add: write_back_def write_batches)

lemma write_back_map: "write_back c2i docs = map (assign_doc c2i) docs"
proof (induction c2i arbitrary: docs)
  case Nil
  then show ?case by (simp add: write_back_alt assign_doc_def)
next
  case (Cons e c2i)
  obtain c l where e: "e = (c, l)" by (cases e)
  have "write_back (e # c2i) docs = write_back c2i (set_community c l docs)"
    by (simp add: write_back_alt e)
  also have "\<dots> = map (assign_doc c2i) (set_community c l docs)" by (rule Cons.IH)
  also have "\<dots> = map (assign_doc (e # c2i)) docs"
    by (simp add: set_community_def assign_doc_def e)
  finally show ?case .
qed

lemma assign_doc_community:
  assumes "\<And>c l c' l'. (c, l) \<in> set c2i \<Longrightarrow> (c', l') \<in> set c2i \<Longrightarrow> d_id d \<in> set l \<Longrightarrow>
      d_id d \<in> set l' \<Longrightarrow> c = c'"
    and "(c, l) \<in> set c2i" "d_id d \<in> set l"
  shows "d_communityId (assign_doc c2i d) = Some (int c)"
  using assms
proof (induction c2i rule: rev_induct)
  case Nil
  then show ?case by simp
next
  case (snoc e c2i)
  obtain c' l' where e: "e = (c', l')" by (cases e)
  show ?case
  proof (cases "d_id d \<in> set l'")
    case True
    then have "c = c'" using snoc.prems(1) [of c l c' l'] snoc.prems(2,3) by (simp add: e)
    then show ?thesis using True by (simp add: e assign_doc_snoc)
  next
    case False
    then have "(c, l) \<in> set c2i" using snoc.prems(2,3) by (auto simp: e)
    moreover have "\<And>c l c' l'. (c, l) \<in> set c2i \<Longrightarrow> (c', l') \<in> set c2i \<Longrightarrow> d_id d \<in> set l \<Longrightarrow>
      d_id d \<in> set l' \<Longrightarrow> c = c'"
      using snoc.prems(1) by auto
    ultimately have "d_communityId (assign_doc c2i d) = Some (int c)"
      using snoc.IH snoc.prems(3) by blast
    then show ?thesis using False by (simp add: e assign_doc_snoc)
  qed
qed

lemma card_image_eq_of_same_kernel:
  assumes "finite S" "\<And>a b. a \<in> S \<Longrightarrow> b \<in> S \<Longrightarrow> f a = f b \<longleftrightarrow> g a = g b"
  shows "card (f ` S) = card (g ` S)"
proof -
  define h where "h = (\<lambda>v. g (SOME a. a \<in> S \<and> f a = v))"
  have h: "h (f a) = g a" if "a \<in> S" for a
  proof -
    have "(SOME b. b \<in> S \<and> f b = f a) \<in> S \<and> f (SOME b. b \<in> S \<and> f b = f a) = f a"
      using that by (intro someI [of "\<lambda>b. b \<in> S \<and> f b = f a" a]) simp
    then show ?thesis unfolding h_def using assms(2) that by blast
  qed
  have "h ` (f ` S) = g ` S" using h by force
  moreover have "inj_on h (f ` S)"
  proof (rule inj_onI)
    fix u v assume "u \<in> f ` S" "v \<in> f ` S" "h u = h v"
    then obtain a b where "a \<in> S" "b \<in> S" "u = f a" "v = f b" by blast
    with \<open>h u = h v\<close> h assms(2) show "u = v" by auto
  qed
  ultimately show ?thesis using card_image by metis
qed

lemma pair_conn_linked:
  "pair_conn (map (\<lambda>r. (r_sourceId r, r_targetId r)) rels) a b \<longleftrightarrow> linked rels a b"
proof -
  have "set (map (\<lambda>r. (r_sourceId r, r_targetId r)) rels) \<union>
      (set (map (\<lambda>r. (r_sourceId r, r_targetId r)) rels))\<inverse> = undirected rels"
    by (auto simp: undirected_def)
  then show ?thesis by (simp add: pair_conn_def linked_def)
qed

lemma linked_equiv:
  "linked rels a a"
  "linked rels a b \<Longrightarrow> linked rels b a"
  "linked rels a b \<Longrightarrow> linked rels b c \<Longrightarrow> linked rels a c"
proof -
  have "sym (undirected rels)" by (auto simp: undirected_def sym_def)
  then have "sym ((undirected rels)\<^sup>*)" by (rule sym_rtrancl)
  then show "linked rels a b \<Longrightarrow> linked rels b a"
    by (auto simp: linked_def sym_def)
qed (auto simp: linked_def)

lemma component_of_eq:
  assumes "a \<in> d_id ` set (documents db)" "b \<in> d_id ` set (documents db)"
  shows "component_of db a = component_of db b \<longleftrightarrow> linked (documentRelations db) a b"
proof
  assume "component_of db a = component_of db b"
  moreover have "b \<in> component_of db b"
    using assms(2) linked_equiv(1) by (simp add: component_of_def)
  ultimately have "b \<in> component_of db a" by simp
  then show "linked (documentRelations db) a b"
    by (simp add: component_of_def)
next
  assume "linked (documentRelations db) a b"
  then show "component_of db a = component_of db b"
    unfolding component_of_def using linked_equiv(2,3) by blast
qed

text \<open>
  C1. On any database state \<open>detectCommunities\<close> returns; afterwards two documents have
  equal \<open>community_id\<close> if and only if a path of relations, read in either direction,
  joins them, so a document without relations is alone in its community, and the count
  returned is the number of connected components among the documents.
\<close>

theorem detectCommunities_components:
  "\<exists>n db'. detectCommunities db = Some (n, db') \<and>
     map d_id (documents db') = map d_id (documents db) \<and>
     (\<forall>d1 \<in> set (documents db'). \<forall>d2 \<in> set (documents db').
        d_communityId d1 = d_communityId d2 \<longleftrightarrow>
          linked (documentRelations db) (d_id d1) (d_id d2)) \<and>
     n = card (components db)"
proof (cases "documents db = []")
  case True
  then show ?thesis by (simp add: detectCommunities_def components_def)
next
  case False
  define allIds where "allIds = map d_id (documents db)"
  define relRows where "relRows = map (\<lambda>r. (r_sourceId r, r_targetId r)) (documentRelations db)"
  define parent0 where "parent0 = foldl (\<lambda>m i. m(i \<mapsto> i)) Map.empty allIds"
  have ne: "allIds \<noteq> []" using False by (simp add: allIds_def)
  from union_all_correct [OF initial_reps_match, of allIds relRows] obtain parent1 where
    u: "union_all parent0 relRows = Some parent1" and rm: "reps_match parent1 relRows"
    by (auto simp: parent0_def)
  then have i1: "uf_inv parent1"
    and conn: "\<And>x y. rep_of parent1 x = rep_of parent1 y \<longleftrightarrow> linked (documentRelations db) x y"
    by (simp_all add: reps_match_def relRows_def pair_conn_linked)
  have w0: "well_numbered []" by (simp add: well_numbered_def)
  from number_roots_correct [OF i1 w0, of allIds] obtain parent2 m where
    nr: "number_roots parent1 [] allIds = Some (parent2, m)" and s2: "same_reps parent1 parent2"
    and wn: "well_numbered m" and keys: "fst ` set m = rep_of parent1 ` set allIds"
    by auto
  have i2: "uf_inv parent2" and r2: "\<And>y. rep_of parent2 y = rep_of parent1 y"
    using s2 by (simp_all add: same_reps_def)
  from collect_members_correct [OF i2, of m "[]" allIds] obtain c2i where
    cm: "collect_members parent2 m [] allIds = Some c2i"
    and mem: "\<And>c. members c2i c = {i \<in> set allIds. map_of m (rep_of parent1 i) = Some c}"
    and dc: "distinct (map fst c2i)"
    by (auto simp: members_def r2)
  define db' where "db' = db\<lparr>documents := write_back c2i (documents db)\<rparr>"
  have res: "detectCommunities db = Some (length m, db')"
    using ne u nr cm
    by (simp add: detectCommunities_def Let_def allIds_def [symmetric] relRows_def [symmetric]
        parent0_def [symmetric] db'_def)
  have docs': "documents db' = map (assign_doc c2i) (documents db)"
    by (simp add: db'_def write_back_map)
  have ids: "map d_id (documents db') = map d_id (documents db)"
    by (simp add: docs' assign_doc_id)
  have in_list: "(c, l) \<in> set c2i \<Longrightarrow> i \<in> set l \<Longrightarrow> map_of m (rep_of parent1 i) = Some c" for c l i
  proof -
    assume "(c, l) \<in> set c2i" "i \<in> set l"
    then have "map_of c2i c = Some l" using dc by simp
    then have "i \<in> members c2i c" using \<open>i \<in> set l\<close> by (simp add: members_def)
    then show ?thesis by (simp add: mem)
  qed
  have comm: "\<exists>c. map_of m (rep_of parent1 (d_id d)) = Some c \<and>
      d_communityId (assign_doc c2i d) = Some (int c)" if d: "d \<in> set (documents db)" for d
  proof -
    have i: "d_id d \<in> set allIds" using d by (simp add: allIds_def)
    then have "rep_of parent1 (d_id d) \<in> fst ` set m" by (simp add: keys)
    then obtain c where c: "map_of m (rep_of parent1 (d_id d)) = Some c"
      by (metis domD dom_map_of_conv_image_fst)
    then have "d_id d \<in> members c2i c" using i by (simp add: mem)
    then obtain l where l: "map_of c2i c = Some l" "d_id d \<in> set l"
      by (auto simp: members_def split: option.splits)
    then have cl: "(c, l) \<in> set c2i" by (auto dest: map_of_SomeD)
    have "d_communityId (assign_doc c2i d) = Some (int c)"
    proof (rule assign_doc_community [OF _ cl l(2)])
      fix c1 l1 c2 l2
      assume "(c1, l1) \<in> set c2i" "(c2, l2) \<in> set c2i" "d_id d \<in> set l1" "d_id d \<in> set l2"
      then show "c1 = c2"
        using in_list [of c1 l1 "d_id d"] in_list [of c2 l2 "d_id d"] by simp
    qed
    with c show ?thesis by blast
  qed
  have same: "d_communityId d1 = d_communityId d2 \<longleftrightarrow>
      linked (documentRelations db) (d_id d1) (d_id d2)"
    if "d1 \<in> set (documents db')" "d2 \<in> set (documents db')" for d1 d2
  proof -
    from that obtain e1 e2 where e: "e1 \<in> set (documents db)" "e2 \<in> set (documents db)"
      "d1 = assign_doc c2i e1" "d2 = assign_doc c2i e2"
      by (auto simp: docs')
    from comm [OF e(1)] comm [OF e(2)] obtain c1 c2 where
      c: "map_of m (rep_of parent1 (d_id e1)) = Some c1" "d_communityId d1 = Some (int c1)"
      "map_of m (rep_of parent1 (d_id e2)) = Some c2" "d_communityId d2 = Some (int c2)"
      by (auto simp: e)
    have "c1 = c2 \<longleftrightarrow> rep_of parent1 (d_id e1) = rep_of parent1 (d_id e2)"
      using c(1,3) well_numbered_inj [OF wn] by auto
    moreover have "d_communityId d1 = d_communityId d2 \<longleftrightarrow> c1 = c2"
      using c(2,4) by simp
    moreover have "d_id d1 = d_id e1" "d_id d2 = d_id e2"
      by (simp_all add: e assign_doc_id)
    ultimately show ?thesis
      by (simp add: conn)
  qed
  have "length m = card (fst ` set m)"
    using wn distinct_card [of "map fst m"] by (simp add: well_numbered_def)
  also have "\<dots> = card (rep_of parent1 ` d_id ` set (documents db))"
    by (simp add: keys allIds_def)
  also have "\<dots> = card (component_of db ` d_id ` set (documents db))"
    by (rule card_image_eq_of_same_kernel) (simp_all add: conn component_of_eq)
  finally have "length m = card (components db)" by (simp add: components_def)
  then show ?thesis using res ids same by blast
qed

theorem detectCommunities_components_witness:
  "map_option (\<lambda>(n, db'). (n, map (\<lambda>d. (d_id d, d_communityId d)) (documents db')))
      (detectCommunities uf_db)
     = Some (2, [(1, Some 0), (2, Some 0), (3, Some 1), (4, Some 0), (5, Some 1)]) \<and>
   card (components uf_db) = 2"
proof -
  have e: "map_option (\<lambda>(n, db'). (n, map (\<lambda>d. (d_id d, d_communityId d)) (documents db')))
      (detectCommunities uf_db)
     = Some (2, [(1, Some 0), (2, Some 0), (3, Some 1), (4, Some 0), (5, Some 1)])"
    by code_simp
  from detectCommunities_components [of uf_db] obtain n db' where
    "detectCommunities uf_db = Some (n, db')" "n = card (components uf_db)"
    by blast
  with e show ?thesis by simp
qed

section \<open>Statements of ingest and import\<close>

text \<open>
  \<open>computeHash\<close> is SHA-256 from the runtime's library; it is a parameter \<open>H\<close> of the
  functions that hash. An insert of chunk rows is one statement: it fails as a whole when
  an embedding has not the dimension of the column, and it skips a row whose \<open>text_hash\<close>
  is taken (\<open>ON CONFLICT DO NOTHING\<close>). The other inserts of \<open>ingest\<close> cannot violate a
  constraint: a document is inserted only after a lookup found no row with its hash, and
  the ids of junction and relation rows come from rows just read. A sequence hands out
  the next value; \<open>nextval\<close> is never rolled back.
\<close>

datatype error = InvalidBackup | DatabaseError

record ChunkRow =
  cr_embedding :: embedding
  cr_text :: jsstring
  cr_textHash :: jsstring
  cr_tokenCount :: int

record SourceRow =
  sr_chunkId :: nat
  sr_docId :: nat
  sr_endIndex :: int
  sr_startIndex :: int

record RelationRow =
  rr_relType :: "jsstring option"
  rr_sourceId :: nat
  rr_targetId :: nat
  rr_weight :: "real option"

text \<open>\<open>SELECT id FROM documents WHERE content_hash = h LIMIT 1\<close>.\<close>

definition select_document_by_hash :: "DB \<Rightarrow> jsstring \<Rightarrow> Document option" where
  "select_document_by_hash db h = find (\<lambda>d. d_contentHash d = h) (documents db)"

definition insert_document ::
    "DB \<Rightarrow> jsstring \<Rightarrow> jsstring \<Rightarrow> jsstring \<Rightarrow> metadata \<Rightarrow> int option \<Rightarrow> nat \<times> DB" where
  "insert_document db ttl cnt h meta comm =
     (let i = documents_seq db + 1
      in (i, db\<lparr>documents := documents db @
               [\<lparr>d_id = i, d_title = ttl, d_content = cnt, d_contentHash = h,
                 d_metadata = meta, d_communityId = comm\<rparr>],
             documents_seq := i\<rparr>))"

definition insert_chunk_row :: "DB \<Rightarrow> ChunkRow \<Rightarrow> DB" where
  "insert_chunk_row db row =
     (let i = chunks_seq db + 1
      in if \<exists>c \<in> set (chunks db). c_textHash c = cr_textHash row then db\<lparr>chunks_seq := i\<rparr>
         else db\<lparr>chunks := chunks db @
                [\<lparr>c_id = i, c_text = cr_text row, c_textHash = cr_textHash row,
                  c_tokenCount = cr_tokenCount row, c_embedding = cr_embedding row\<rparr>],
              chunks_seq := i\<rparr>)"

definition insert_chunks :: "DB \<Rightarrow> ChunkRow list \<Rightarrow> error + DB" where
  "insert_chunks db batch =
     (if \<exists>row \<in> set batch. length (cr_embedding row) \<noteq> dimension db then Inl DatabaseError
      else Inr (foldl insert_chunk_row db batch))"

definition insert_chunk_source :: "DB \<Rightarrow> SourceRow \<Rightarrow> DB" where
  "insert_chunk_source db row =
     (let i = chunkSources_seq db + 1
      in db\<lparr>chunkSources := chunkSources db @
             [\<lparr>cs_id = i, cs_chunkId = sr_chunkId row, cs_documentId = sr_docId row,
               cs_startIndex = sr_startIndex row, cs_endIndex = sr_endIndex row\<rparr>],
           chunkSources_seq := i\<rparr>)"

text \<open>\<open>INSERT INTO document_relations ... ON CONFLICT DO NOTHING\<close>: a row whose pair of
  ids is taken is skipped; an absent weight becomes the default 1. The flag says whether
  the row went in.\<close>

definition insert_relation :: "DB \<Rightarrow> RelationRow \<Rightarrow> bool \<times> DB" where
  "insert_relation db row =
     (let i = documentRelations_seq db + 1
      in if \<exists>r \<in> set (documentRelations db).
              r_sourceId r = rr_sourceId row \<and> r_targetId r = rr_targetId row
         then (False, db\<lparr>documentRelations_seq := i\<rparr>)
         else (True, db\<lparr>documentRelations := documentRelations db @
                 [\<lparr>r_id = i, r_sourceId = rr_sourceId row, r_targetId = rr_targetId row,
                   r_relType = rr_relType row,
                   r_weight = Some (case rr_weight row of None \<Rightarrow> 1 | Some w \<Rightarrow> w)\<rparr>],
               documentRelations_seq := i\<rparr>))"

definition insert_relations :: "DB \<Rightarrow> RelationRow list \<Rightarrow> nat \<times> DB" where
  "insert_relations db rows =
     foldl (\<lambda>(n, db') row. (let (inserted, db'') = insert_relation db' row
                              in (if inserted then n + 1 else n, db''))) (0, db) rows"

section \<open>The ingest pipeline\<close>

record Doc =
  doc_content :: jsstring
  doc_metadata :: "metadata option"
  doc_title :: jsstring

datatype RelationTarget = TargetTitle jsstring | TargetObject jsstring "jsstring option" "real option"

text \<open>The configuration of \<open>ingest\<close>. \<open>relations\<close> is an object; its entries are taken in
  the order of \<open>Object.entries\<close>. \<open>onProgress\<close> and \<open>backupPath\<close> only call back and
  append to a file: they change neither the database nor the result and are left out.\<close>

record IngestConfig =
  ic_batchSize :: "nat option"
  ic_chunk :: "ChunkConfig option"
  ic_embed :: "jsstring list \<Rightarrow> embedding list"
  ic_relations :: "(jsstring \<times> RelationTarget list) list option"
  ic_transformChunk :: "(jsstring \<Rightarrow> Doc \<Rightarrow> jsstring) option"

record IngestResult =
  chunksInserted :: nat
  chunksReused :: nat
  communitiesDetected :: nat
  documentsInserted :: nat
  duplicatesSkipped :: nat
  relationsInserted :: nat
  unresolvedRelations :: "jsstring list"

record DedupEntry =
  de_embedding :: "embedding option"
  de_sources :: "(nat \<times> int \<times> int) list"
  de_text :: jsstring
  de_textHash :: jsstring
  de_tokenCount :: int

fun parseRelTarget :: "RelationTarget \<Rightarrow> jsstring \<times> jsstring option \<times> real option" where
  "parseRelTarget (TargetTitle t) = (t, None, None)"
| "parseRelTarget (TargetObject t ty w) = (t, ty, w)"

text \<open>A \<open>Map\<close> from a key to an array, and \<open>push\<close> on the array of a key.\<close>

definition push_to :: "'k \<Rightarrow> 'v \<Rightarrow> ('k \<times> 'v list) list \<Rightarrow> ('k \<times> 'v list) list" where
  "push_to k v m =
     (case map_of m k of
        Some existing \<Rightarrow> AList.update k (existing @ [v]) m
      | None \<Rightarrow> AList.update k [v] m)"

subsection \<open>The loop over the documents\<close>

record DocLoop =
  dl_db :: DB
  dl_dedupMap :: "(jsstring \<times> DedupEntry) list"
  dl_titleToNewIds :: "(jsstring \<times> nat list) list"
  dl_documentsInserted :: nat
  dl_duplicatesSkipped :: nat

definition add_chunk ::
    "(jsstring \<Rightarrow> jsstring) \<Rightarrow> IngestConfig \<Rightarrow> Doc \<Rightarrow> nat
     \<Rightarrow> (jsstring \<times> DedupEntry) list \<Rightarrow> ChunkOutput \<Rightarrow> (jsstring \<times> DedupEntry) list" where
  "add_chunk H config doc insertedId dedupMap c =
     (let finalText = (case ic_transformChunk config of None \<Rightarrow> ctext c
                       | Some f \<Rightarrow> f (ctext c) doc);
          hash = H finalText
      in case map_of dedupMap hash of
           Some entry \<Rightarrow> AList.update hash
             (entry\<lparr>de_sources := de_sources entry @ [(insertedId, endIndex c, startIndex c)]\<rparr>)
             dedupMap
         | None \<Rightarrow> AList.update hash
             \<lparr>de_embedding = None, de_sources = [(insertedId, endIndex c, startIndex c)],
              de_text = finalText, de_textHash = hash, de_tokenCount = tokenCount c\<rparr> dedupMap)"

definition ingest_doc ::
    "(jsstring \<Rightarrow> jsstring) \<Rightarrow> IngestConfig \<Rightarrow> DocLoop \<Rightarrow> Doc \<Rightarrow> DocLoop" where
  "ingest_doc H config st doc =
     (let contentHash = H (doc_title doc @ doc_content doc)
      in case select_document_by_hash (dl_db st) contentHash of
           Some existing \<Rightarrow> st\<lparr>dl_duplicatesSkipped := dl_duplicatesSkipped st + 1\<rparr>
         | None \<Rightarrow>
             (let (insertedId, db') = insert_document (dl_db st) (doc_title doc) (doc_content doc)
                     contentHash (case doc_metadata doc of None \<Rightarrow> [] | Some m \<Rightarrow> m) None;
                  textChunks = chunkText (doc_content doc) (ic_chunk config)
              in \<lparr>dl_db = db',
                  dl_dedupMap = foldl (add_chunk H config doc insertedId) (dl_dedupMap st) textChunks,
                  dl_titleToNewIds = push_to (doc_title doc) insertedId (dl_titleToNewIds st),
                  dl_documentsInserted = dl_documentsInserted st + 1,
                  dl_duplicatesSkipped = dl_duplicatesSkipped st\<rparr>))"

subsection \<open>Chunks and junction rows\<close>

definition select_chunks_by_hash :: "DB \<Rightarrow> jsstring list \<Rightarrow> Chunk list" where
  "select_chunks_by_hash db batch = filter (\<lambda>c. c_textHash c \<in> set batch) (chunks db)"

definition existing_hashes :: "DB \<Rightarrow> jsstring list \<Rightarrow> jsstring list" where
  "existing_hashes db allHashes =
     foldl (\<lambda>s h. set_add h s) []
       (concat (map (\<lambda>batch. map c_textHash (select_chunks_by_hash db batch))
          (batches 500 allHashes)))"

text \<open>\<open>entry.embedding = batchEmbeddings[k]\<close> for the entry at \<open>j + k\<close>, when there is
  one.\<close>

definition assign_embeddings :: "DedupEntry list \<Rightarrow> nat \<Rightarrow> embedding list \<Rightarrow> DedupEntry list" where
  "assign_embeddings entries j batchEmbeddings =
     foldl (\<lambda>es (k, e). if j + k < length es
                          then es[j + k := (es ! (j + k))\<lparr>de_embedding := Some e\<rparr>] else es)
       entries (enumerate_from 0 batchEmbeddings)"

definition embed_all ::
    "(jsstring list \<Rightarrow> embedding list) \<Rightarrow> nat \<Rightarrow> DedupEntry list \<Rightarrow> DedupEntry list" where
  "embed_all emb batchSize newEntries =
     foldl (\<lambda>es (j, batch). assign_embeddings es (j * batchSize) (emb batch)) newEntries
       (enumerate_from 0 (batches batchSize (map de_text newEntries)))"

fun insert_chunk_batches :: "DB \<Rightarrow> ChunkRow list list \<Rightarrow> error + DB" where
  "insert_chunk_batches db [] = Inr db"
| "insert_chunk_batches db (batch # rest) =
     (case insert_chunks db batch of Inl e \<Rightarrow> Inl e | Inr db' \<Rightarrow> insert_chunk_batches db' rest)"

definition hash_to_id :: "DB \<Rightarrow> jsstring list \<Rightarrow> (jsstring \<times> nat) list" where
  "hash_to_id db allHashes =
     foldl (\<lambda>m c. AList.update (c_textHash c) (c_id c) m) []
       (concat (map (select_chunks_by_hash db) (batches 500 allHashes)))"

definition source_rows :: "(jsstring \<times> nat) list \<Rightarrow> DedupEntry list \<Rightarrow> SourceRow list" where
  "source_rows hashToId uniqueEntries =
     concat (map (\<lambda>entry.
        (case map_of hashToId (de_textHash entry) of
           None \<Rightarrow> []
         | Some chunkId \<Rightarrow>
             map (\<lambda>(docId, e, s). \<lparr>sr_chunkId = chunkId, sr_docId = docId, sr_endIndex = e,
                                   sr_startIndex = s\<rparr>) (de_sources entry))) uniqueEntries)"

subsection \<open>Relations\<close>

definition relation_titles :: "(jsstring \<times> RelationTarget list) list \<Rightarrow> jsstring list" where
  "relation_titles rels =
     foldl (\<lambda>s (sourceTitle, targets).
        foldl (\<lambda>s' t. set_add (fst (parseRelTarget t)) s') (set_add sourceTitle s) targets) [] rels"

definition lookup_titles ::
    "DB \<Rightarrow> (jsstring \<times> nat list) list \<Rightarrow> jsstring list \<Rightarrow> (jsstring \<times> nat list) list" where
  "lookup_titles db titleToAllIds missingTitles =
     foldl (\<lambda>m d. push_to (d_title d) (d_id d) m) titleToAllIds
       (concat (map (\<lambda>batch. filter (\<lambda>d. d_title d \<in> set batch) (documents db))
          (batches 500 missingTitles)))"

definition target_rows ::
    "(jsstring \<times> nat list) list \<Rightarrow> jsstring \<Rightarrow> nat list \<Rightarrow> RelationTarget
     \<Rightarrow> RelationRow list \<times> jsstring list" where
  "target_rows titleToAllIds sourceTitle sourceIds raw =
     (let (ttl, ty, w) = parseRelTarget raw
      in if ttl = sourceTitle then ([], [])
         else (case map_of titleToAllIds ttl of
                 Some targetIds \<Rightarrow>
                   (concat (map (\<lambda>sId. map (\<lambda>tId.
                      \<lparr>rr_relType = ty, rr_sourceId = sId, rr_targetId = tId, rr_weight = w\<rparr>)
                      targetIds) sourceIds), [])
               | None \<Rightarrow> ([], [ttl])))"

definition relation_rows ::
    "(jsstring \<times> nat list) list \<Rightarrow> (jsstring \<times> RelationTarget list) list
     \<Rightarrow> RelationRow list \<times> jsstring list" where
  "relation_rows titleToAllIds rels =
     foldl (\<lambda>(rows, unresolved) (sourceTitle, targets).
        (case map_of titleToAllIds sourceTitle of
           None \<Rightarrow> (rows, unresolved)
         | Some sourceIds \<Rightarrow>
             foldl (\<lambda>(rows', unresolved') raw.
                (let (new, missing) = target_rows titleToAllIds sourceTitle sourceIds raw
                 in (rows' @ new, unresolved' @ missing))) (rows, unresolved) targets))
       ([], []) rels"

definition ingest_relations ::
    "DB \<Rightarrow> (jsstring \<times> nat list) list \<Rightarrow> (jsstring \<times> RelationTarget list) list
     \<Rightarrow> nat \<times> jsstring list \<times> DB" where
  "ingest_relations db titleToNewIds rels =
     (let allRelationTitles = relation_titles rels;
          missingTitles = filter (\<lambda>t. map_of titleToNewIds t = None) allRelationTitles;
          titleToAllIds = lookup_titles db titleToNewIds missingTitles;
          (relationRows, unresolved) = relation_rows titleToAllIds rels;
          (n, db') = foldl (\<lambda>(n, d) batch. (let (k, d') = insert_relations d batch in (n + k, d')))
                       (0, db) (batches 500 relationRows)
      in (n, unresolved, db'))"

subsection \<open>\<open>ingest\<close>\<close>

text \<open>
  The result is \<open>None\<close> when \<open>ingest\<close> does not return: the embedding loop steps by
  \<open>batchSize\<close>, and with \<open>batchSize = 0\<close> and a text to embed it never ends. Otherwise
  the result is the database as \<open>ingest\<close> leaves it, with the counters, or with the
  error of the statement that failed.
\<close>

definition ingest ::
    "(jsstring \<Rightarrow> jsstring) \<Rightarrow> DB \<Rightarrow> Doc list \<Rightarrow> IngestConfig
     \<Rightarrow> ((error + IngestResult) \<times> DB) option" where
  "ingest H db docs config =
     (let st = foldl (ingest_doc H config)
                 \<lparr>dl_db = db, dl_dedupMap = [], dl_titleToNewIds = [],
                  dl_documentsInserted = 0, dl_duplicatesSkipped = 0\<rparr> docs;
          uniqueEntries = map snd (dl_dedupMap st);
          allHashes = map de_textHash uniqueEntries;
          existingHashes = existing_hashes (dl_db st) allHashes;
          newEntries0 = filter (\<lambda>entry. de_textHash entry \<notin> set existingHashes) uniqueEntries;
          batchSize = or_default (ic_batchSize config) 64
      in if batchSize = 0 \<and> newEntries0 \<noteq> [] then None
         else
           (let newEntries = embed_all (ic_embed config) batchSize newEntries0;
                chunkRows = concat (map (\<lambda>entry.
                    (case de_embedding entry of None \<Rightarrow> []
                     | Some e \<Rightarrow> [\<lparr>cr_embedding = e, cr_text = de_text entry,
                                   cr_textHash = de_textHash entry,
                                   cr_tokenCount = de_tokenCount entry\<rparr>])) newEntries)
            in case insert_chunk_batches (dl_db st) (batches 500 chunkRows) of
                 Inl e \<Rightarrow> Some (Inl e, dl_db st)
               | Inr db1 \<Rightarrow>
                   (let hashToId = hash_to_id db1 allHashes;
                        sourceRows = source_rows hashToId uniqueEntries;
                        db2 = foldl (\<lambda>d batch. foldl insert_chunk_source d batch) db1
                                (batches 500 sourceRows);
                        (relationsInserted', unresolved, db3) =
                          (case ic_relations config of None \<Rightarrow> (0, [], db2)
                           | Some rels \<Rightarrow> ingest_relations db2 (dl_titleToNewIds st) rels)
                    in case (case ic_relations config of None \<Rightarrow> Some (0, db3)
                             | Some rels \<Rightarrow> detectCommunities db3) of
                         None \<Rightarrow> None
                       | Some (communities, db4) \<Rightarrow>
                           Some (Inr \<lparr>chunksInserted = length chunkRows,
                                      chunksReused = length existingHashes,
                                      communitiesDetected = communities,
                                      documentsInserted = dl_documentsInserted st,
                                      duplicatesSkipped = dl_duplicatesSkipped st,
                                      relationsInserted = relationsInserted',
                                      unresolvedRelations = foldl (\<lambda>s t. set_add t s) [] unresolved\<rparr>,
                                 db4))))"

subsection \<open>Ingesting documents that are there already\<close>

text \<open>Rows of the three content tables; relations are left aside.\<close>

definition same_rows :: "DB \<Rightarrow> DB \<Rightarrow> bool" where
  "same_rows db db' \<longleftrightarrow>
     documents db' = documents db \<and> chunks db' = chunks db \<and> chunkSources db' = chunkSources db"

text \<open>A small library: two documents, the first related to the second, to itself and to
  a title nobody has. The hash is the identity, which has no collisions.\<close>

definition empty_db :: DB where
  "empty_db = \<lparr>documents = [], chunks = [], chunkSources = [], documentRelations = [],
     documents_seq = 0, chunks_seq = 0, chunkSources_seq = 0, documentRelations_seq = 0,
     dimension = 2, similarity = dot, bm25_distance = contains_query\<rparr>"

definition library_docs :: "Doc list" where
  "library_docs =
     [\<lparr>doc_content = ascii ''The quick brown fox jumps over the lazy dog and keeps running.'',
       doc_metadata = None, doc_title = ascii ''fox''\<rparr>,
      \<lparr>doc_content = ascii ''A second document that is also long enough to pass the chunk filter.'',
       doc_metadata = None, doc_title = ascii ''second''\<rparr>]"

definition library_config :: IngestConfig where
  "library_config =
     \<lparr>ic_batchSize = None, ic_chunk = None, ic_embed = map (\<lambda>t. [1, 0]),
      ic_relations = Some [(ascii ''fox'', [TargetTitle (ascii ''second''),
                              TargetTitle (ascii ''fox''), TargetTitle (ascii ''nowhere'')])],
      ic_transformChunk = None\<rparr>"

definition library_db :: DB where
  "library_db = (case ingest id empty_db library_docs library_config of
                   Some (r, db) \<Rightarrow> db | None \<Rightarrow> empty_db)"

lemma assign_doc_rest:
  "(assign_doc c2i d)\<lparr>d_communityId := None\<rparr> = d\<lparr>d_communityId := None\<rparr>"
  unfolding assign_doc_def by (induction c2i arbitrary: d) (auto split: prod.splits)

lemma detectCommunities_returns:
  "\<exists>n c2i. detectCommunities db = Some (n, db\<lparr>documents := map (assign_doc c2i) (documents db)\<rparr>)"
proof (cases "documents db = []")
  case True
  then have "db\<lparr>documents := map (assign_doc []) (documents db)\<rparr> = db" by simp
  moreover have "detectCommunities db = Some (0, db)" using True by (simp add: detectCommunities_def)
  ultimately show ?thesis by metis
next
  case False
  define allIds where "allIds = map d_id (documents db)"
  define relRows where "relRows = map (\<lambda>r. (r_sourceId r, r_targetId r)) (documentRelations db)"
  define parent0 where "parent0 = foldl (\<lambda>m i. m(i \<mapsto> i)) Map.empty allIds"
  have ne: "allIds \<noteq> []" using False by (simp add: allIds_def)
  from union_all_correct [OF initial_reps_match, of allIds relRows] obtain parent1 where
    u: "union_all parent0 relRows = Some parent1" and rm: "reps_match parent1 relRows"
    by (auto simp: parent0_def)
  then have i1: "uf_inv parent1" by (simp add: reps_match_def)
  have w0: "well_numbered []" by (simp add: well_numbered_def)
  from number_roots_correct [OF i1 w0, of allIds] obtain parent2 m where
    nr: "number_roots parent1 [] allIds = Some (parent2, m)" and s2: "same_reps parent1 parent2"
    by auto
  have i2: "uf_inv parent2" using s2 by (simp add: same_reps_def)
  from collect_members_correct [OF i2, of m "[]" allIds] obtain c2i where
    cm: "collect_members parent2 m [] allIds = Some c2i"
    by auto
  have "detectCommunities db = Some (length m, db\<lparr>documents := map (assign_doc c2i) (documents db)\<rparr>)"
    using ne u nr cm
    by (simp add: detectCommunities_def Let_def allIds_def [symmetric] relRows_def [symmetric]
        parent0_def [symmetric] write_back_map)
  then show ?thesis by blast
qed

lemma ingest_doc_existing:
  assumes "select_document_by_hash (dl_db st) (H (doc_title doc @ doc_content doc)) \<noteq> None"
  shows "ingest_doc H config st doc = st\<lparr>dl_duplicatesSkipped := dl_duplicatesSkipped st + 1\<rparr>"
  using assms by (auto simp: ingest_doc_def Let_def)

lemma ingest_docs_existing:
  assumes "\<forall>doc \<in> set docs. select_document_by_hash (dl_db st) (H (doc_title doc @ doc_content doc)) \<noteq> None"
  shows "foldl (ingest_doc H config) st docs =
           st\<lparr>dl_duplicatesSkipped := dl_duplicatesSkipped st + length docs\<rparr>"
  using assms
proof (induction docs arbitrary: st)
  case Nil
  then show ?case by simp
next
  case (Cons doc docs)
  have 1: "ingest_doc H config st doc = st\<lparr>dl_duplicatesSkipped := dl_duplicatesSkipped st + 1\<rparr>"
    using Cons.prems by (simp add: ingest_doc_existing)
  have 2: "\<forall>doc \<in> set docs. select_document_by_hash
             (dl_db (st\<lparr>dl_duplicatesSkipped := dl_duplicatesSkipped st + 1\<rparr>))
             (H (doc_title doc @ doc_content doc)) \<noteq> None"
    using Cons.prems by simp
  show ?case unfolding foldl_Cons 1 Cons.IH [OF 2] by simp
qed

lemma batches_Nil: "batches n [] = []"
  by (simp add: batches.simps)

lemma same_rows_refl: "same_rows db db"
  by (simp add: same_rows_def)

lemma same_rows_trans: "same_rows a b \<Longrightarrow> same_rows b c \<Longrightarrow> same_rows a c"
  by (simp add: same_rows_def)

lemma insert_relation_rows: "same_rows db (snd (insert_relation db row))"
  by (simp add: insert_relation_def same_rows_def Let_def)

lemma foldl_snd_invariant:
  assumes "P (snd a)" and "\<And>b x. P (snd b) \<Longrightarrow> P (snd (f b x))"
  shows "P (snd (foldl f a xs))"
  using assms(1) by (induction xs arbitrary: a) (simp_all add: assms(2))

lemma insert_relations_rows:
  assumes "same_rows db d"
  shows "same_rows db (snd (insert_relations d rows))"
  unfolding insert_relations_def
proof (rule foldl_snd_invariant)
  show "same_rows db (snd (0::nat, d))" using assms by simp
next
  fix b :: "nat \<times> DB" and x
  assume "same_rows db (snd b)"
  then show "same_rows db (snd ((case b of (n, db') \<Rightarrow> \<lambda>row. let (inserted, db'') = insert_relation db' row
                              in (if inserted then n + 1 else n, db'')) x))"
    using insert_relation_rows [of "snd b" x]
    by (cases b) (auto simp: Let_def split: prod.splits intro: same_rows_trans)
qed

lemma ingest_relations_rows:
  "same_rows db (snd (snd (ingest_relations db titleToNewIds rels)))"
proof -
  have g: "same_rows db (snd (foldl (\<lambda>(n, d) batch. (let (k, d') = insert_relations d batch in (n + k, d')))
                       (0, db) bs))" for bs
  proof (rule foldl_snd_invariant)
    show "same_rows db (snd (0::nat, db))" by (simp add: same_rows_refl)
  next
    fix b :: "nat \<times> DB" and x
    assume "same_rows db (snd b)"
    then show "same_rows db (snd ((case b of (n, d) \<Rightarrow> \<lambda>batch. let (k, d') = insert_relations d batch in (n + k, d')) x))"
      using insert_relations_rows [of db "snd b" x]
      by (cases b) (auto simp: Let_def split: prod.splits)
  qed
  show ?thesis
    using g by (simp add: ingest_relations_def Let_def split: prod.splits) (metis snd_conv)
qed

text \<open>
  C5. When every document of \<open>docs\<close> is in the database already (a row with its content
  hash exists), \<open>ingest\<close> returns with \<open>documentsInserted = 0\<close>, \<open>chunksInserted = 0\<close> and
  \<open>duplicatesSkipped = length docs\<close>; the chunk and junction rows are the same as before,
  and so are the document rows, up to the community ids that \<open>detectCommunities\<close> writes
  again when relations are configured.
\<close>

theorem ingest_idempotent:
  assumes "\<forall>doc \<in> set docs.
             select_document_by_hash db (H (doc_title doc @ doc_content doc)) \<noteq> None"
  shows "\<exists>res db'. ingest H db docs config = Some (Inr res, db') \<and>
           documentsInserted res = 0 \<and> chunksInserted res = 0 \<and>
           duplicatesSkipped res = length docs \<and>
           map (\<lambda>d. d\<lparr>d_communityId := None\<rparr>) (documents db') =
             map (\<lambda>d. d\<lparr>d_communityId := None\<rparr>) (documents db) \<and>
           chunks db' = chunks db \<and> chunkSources db' = chunkSources db"
proof -
  define st0 where "st0 = \<lparr>dl_db = db, dl_dedupMap = [], dl_titleToNewIds = [],
                  dl_documentsInserted = 0, dl_duplicatesSkipped = 0\<rparr>"
  have loop: "foldl (ingest_doc H config) st0 docs = st0\<lparr>dl_duplicatesSkipped := length docs\<rparr>"
    using ingest_docs_existing [of docs st0 H config] assms by (simp add: st0_def)
  show ?thesis
  proof (cases "ic_relations config")
    case None
    have "ingest H db docs config =
            Some (Inr \<lparr>chunksInserted = 0, chunksReused = 0, communitiesDetected = 0,
                       documentsInserted = 0, duplicatesSkipped = length docs,
                       relationsInserted = 0, unresolvedRelations = []\<rparr>, db)"
      unfolding ingest_def st0_def [symmetric] loop
      by (simp add: None st0_def existing_hashes_def batches_Nil embed_all_def hash_to_id_def
          source_rows_def)
    then show ?thesis by simp
  next
    case (Some rels)
    obtain n u db3 where r: "ingest_relations db [] rels = (n, u, db3)"
      by (cases "ingest_relations db [] rels") auto
    have s3: "same_rows db db3" using ingest_relations_rows [of db "[]" rels] by (simp add: r)
    from detectCommunities_returns [of db3] obtain k c2i where
      dc: "detectCommunities db3 = Some (k, db3\<lparr>documents := map (assign_doc c2i) (documents db3)\<rparr>)"
      by blast
    have "ingest H db docs config =
            Some (Inr \<lparr>chunksInserted = 0, chunksReused = 0, communitiesDetected = k,
                       documentsInserted = 0, duplicatesSkipped = length docs,
                       relationsInserted = n,
                       unresolvedRelations = foldl (\<lambda>s t. set_add t s) [] u\<rparr>,
                  db3\<lparr>documents := map (assign_doc c2i) (documents db3)\<rparr>)"
      unfolding ingest_def st0_def [symmetric] loop
      by (simp add: Some st0_def existing_hashes_def batches_Nil embed_all_def hash_to_id_def
          source_rows_def r dc)
    then show ?thesis using s3 by (simp add: same_rows_def assign_doc_rest comp_def)
  qed
qed

theorem ingest_idempotent_witness:
  "length (documents library_db) = 2 \<and>
   (\<exists>res db'. ingest id library_db library_docs library_config = Some (Inr res, db') \<and>
      documentsInserted res = 0 \<and> chunksInserted res = 0 \<and> duplicatesSkipped res = 2 \<and>
      length (documents db') = 2 \<and> chunks db' = chunks library_db \<and>
      chunkSources db' = chunkSources library_db)"
proof -
  have e: "map d_contentHash (documents library_db) =
             map (\<lambda>doc. id (doc_title doc @ doc_content doc)) library_docs"
    by code_simp
  have h: "\<forall>doc \<in> set library_docs.
             select_document_by_hash library_db (id (doc_title doc @ doc_content doc)) \<noteq> None"
    using e by (auto simp: select_document_by_hash_def find_None_iff library_docs_def)
  have l: "length (documents library_db) = 2" "length library_docs = 2"
    using arg_cong [OF e, of length] by (simp_all add: library_docs_def)
  from ingest_idempotent [OF h, of library_config] obtain res db' where
    r: "ingest id library_db library_docs library_config = Some (Inr res, db')"
      "documentsInserted res = 0" "chunksInserted res = 0"
      "duplicatesSkipped res = length library_docs"
      "map (\<lambda>d. d\<lparr>d_communityId := None\<rparr>) (documents db') =
         map (\<lambda>d. d\<lparr>d_communityId := None\<rparr>) (documents library_db)"
      "chunks db' = chunks library_db" "chunkSources db' = chunkSources library_db"
    by blast
  have "length (documents db') = 2" using arg_cong [OF r(5), of length] l by simp
  then show ?thesis using r l by simp
qed

section \<open>Backup files\<close>

text \<open>
  A backup file holds one JSON object per line. The lines are taken as parsed, each of
  the type \<open>BackupDoc\<close>; what is left of \<open>validateBackupLines\<close> are the checks a
  well-typed line can fail: an empty title, content or hash, and embeddings of more than
  one length in the file. A list of relations is a list of titles or a list of objects.
\<close>

record BackupChunk =
  bc_embedding :: embedding
  bc_endIndex :: int
  bc_startIndex :: int
  bc_text :: jsstring
  bc_tokenCount :: int

record BackupRelation =
  br_title :: jsstring
  br_type :: "jsstring option"
  br_weight :: "real option"

datatype BackupRelations = RelTitles "jsstring list" | RelObjects "BackupRelation list"

record BackupDoc =
  bd_chunks :: "BackupChunk list"
  bd_communityId :: "int option"
  bd_content :: jsstring
  bd_contentHash :: jsstring
  bd_metadata :: metadata
  bd_relations :: "BackupRelations option"
  bd_title :: jsstring

fun normalizeRelations :: "BackupRelations option \<Rightarrow> BackupRelation list option" where
  "normalizeRelations None = None"
| "normalizeRelations (Some (RelTitles ts)) =
     (if ts = [] then None
      else Some (map (\<lambda>r. \<lparr>br_title = r, br_type = None, br_weight = None\<rparr>) ts))"
| "normalizeRelations (Some (RelObjects rs)) = (if rs = [] then None else Some rs)"

datatype validation_error = InvalidTitle nat | InvalidContent nat | InvalidContentHash nat

record ValidationResult =
  vr_dimensions :: "nat list"
  vr_duplicateHashes :: "jsstring list"
  vr_errors :: "validation_error list"
  vr_totalChunks :: nat
  vr_totalDocuments :: nat
  vr_valid :: bool

definition line_errors :: "nat \<Rightarrow> BackupDoc \<Rightarrow> validation_error list" where
  "line_errors i doc =
     (if bd_title doc = [] then [InvalidTitle (i + 1)] else []) @
     (if bd_content doc = [] then [InvalidContent (i + 1)] else []) @
     (if bd_contentHash doc = [] then [InvalidContentHash (i + 1)] else [])"

definition validateBackupLines :: "BackupDoc list \<Rightarrow> ValidationResult" where
  "validateBackupLines lines =
     (let errors = concat (map (\<lambda>(i, doc). line_errors i doc) (enumerate_from 0 lines));
          dimensions = foldl (\<lambda>s doc. foldl (\<lambda>s' chunk. set_add (length (bc_embedding chunk)) s')
                                 s (bd_chunks doc)) [] lines;
          hashes = foldl (\<lambda>m doc. AList.update (bd_contentHash doc)
                             (or_default (map_of m (bd_contentHash doc)) 0 + 1) m)
                     ([] :: (jsstring \<times> nat) list) lines
      in \<lparr>vr_dimensions = dimensions,
          vr_duplicateHashes = map fst (filter (\<lambda>(h, n). n > 1) hashes),
          vr_errors = errors,
          vr_totalChunks = foldl (\<lambda>n doc. n + length (bd_chunks doc)) 0 lines,
          vr_totalDocuments = length lines,
          vr_valid = (errors = [] \<and> length dimensions \<le> 1)\<rparr>)"

section \<open>Importing a backup\<close>

text \<open>
  A statement can fail for a reason the program does not control (a lost connection, a
  full disk). Which insert fails is a parameter: \<open>faults t db\<close> says that an insert into
  table \<open>t\<close> fails on the state \<open>db\<close>. An insert of a chunk fails also when its embedding
  has not the dimension of the column.
\<close>

datatype table_name = Documents | Chunks | ChunkSources | DocumentRelations

type_synonym faults = "table_name \<Rightarrow> DB \<Rightarrow> bool"

text \<open>\<open>db.transaction\<close>: the body runs on the state; when it throws, the rows of every
  table are those from before the body, the error goes on to the caller, and the
  sequences keep the values they handed out.\<close>

definition rollback :: "DB \<Rightarrow> DB \<Rightarrow> DB" where
  "rollback before failed =
     before\<lparr>documents_seq := documents_seq failed, chunks_seq := chunks_seq failed,
            chunkSources_seq := chunkSources_seq failed,
            documentRelations_seq := documentRelations_seq failed\<rparr>"

definition transaction ::
    "DB \<Rightarrow> (DB \<Rightarrow> (error \<times> DB) + ('a \<times> DB)) \<Rightarrow> (error \<times> DB) + ('a \<times> DB)" where
  "transaction db body =
     (case body db of
        Inl (e, failed) \<Rightarrow> Inl (e, rollback db failed)
      | Inr (x, db') \<Rightarrow> Inr (x, db'))"

datatype warning = DimensionWarning jsstring nat nat | DuplicateWarning jsstring jsstring

record ImportResult =
  imp_chunksInserted :: nat
  imp_documentsImported :: nat
  imp_duplicatesSkipped :: nat
  imp_warnings :: "warning list"

text \<open>The chunks of one document, inside its transaction: the chunk row (skipped when
  the hash of the text is taken), the id of the row with that hash, the junction row.\<close>

fun import_chunks ::
    "(jsstring \<Rightarrow> jsstring) \<Rightarrow> faults \<Rightarrow> nat \<Rightarrow> DB \<Rightarrow> nat \<Rightarrow> BackupChunk list
     \<Rightarrow> (error \<times> DB) + (nat \<times> DB)" where
  "import_chunks H flt insertedId tx insertedChunkCount [] = Inr (insertedChunkCount, tx)"
| "import_chunks H flt insertedId tx insertedChunkCount (chunk # rest) =
     (let textHash = H (bc_text chunk)
      in if flt Chunks tx then Inl (DatabaseError, tx)
         else
           (case insert_chunks tx [\<lparr>cr_embedding = bc_embedding chunk, cr_text = bc_text chunk,
                                    cr_textHash = textHash, cr_tokenCount = bc_tokenCount chunk\<rparr>] of
              Inl e \<Rightarrow> Inl (e, tx)
            | Inr tx1 \<Rightarrow>
                (case find (\<lambda>c. c_textHash c = textHash) (chunks tx1) of
                   None \<Rightarrow> import_chunks H flt insertedId tx1 insertedChunkCount rest
                 | Some chunkRow \<Rightarrow>
                     if flt ChunkSources tx1 then Inl (DatabaseError, tx1)
                     else import_chunks H flt insertedId
                            (insert_chunk_source tx1
                               \<lparr>sr_chunkId = c_id chunkRow, sr_docId = insertedId,
                                sr_endIndex = bc_endIndex chunk,
                                sr_startIndex = bc_startIndex chunk\<rparr>)
                            (insertedChunkCount + 1) rest)))"

definition import_document ::
    "(jsstring \<Rightarrow> jsstring) \<Rightarrow> faults \<Rightarrow> DB \<Rightarrow> BackupDoc \<Rightarrow> (error \<times> DB) + (nat \<times> DB)" where
  "import_document H flt db doc =
     transaction db (\<lambda>tx.
       if flt Documents tx then Inl (DatabaseError, tx)
       else (let (insertedId, tx') = insert_document tx (bd_title doc) (bd_content doc)
                   (bd_contentHash doc) (bd_metadata doc) (bd_communityId doc)
             in import_chunks H flt insertedId tx' 0 (bd_chunks doc)))"

record ImportLoop =
  il_db :: DB
  il_chunksInserted :: nat
  il_documentsImported :: nat
  il_duplicatesSkipped :: nat
  il_warnings :: "warning list"

text \<open>The warning of a document whose first chunk has not the expected dimension.\<close>

definition dimension_mismatch :: "nat option \<Rightarrow> BackupDoc \<Rightarrow> warning option" where
  "dimension_mismatch expected doc =
     (case expected of
        None \<Rightarrow> None
      | Some d \<Rightarrow>
          (case bd_chunks doc of
             [] \<Rightarrow> None
           | firstChunk # rest \<Rightarrow>
               if length (bc_embedding firstChunk) \<noteq> d
               then Some (DimensionWarning (bd_title doc) (length (bc_embedding firstChunk)) d)
               else None))"

definition import_line ::
    "(jsstring \<Rightarrow> jsstring) \<Rightarrow> faults \<Rightarrow> nat option \<Rightarrow> ImportLoop \<Rightarrow> BackupDoc
     \<Rightarrow> (error \<times> DB) + ImportLoop" where
  "import_line H flt expected st doc =
     (case dimension_mismatch expected doc of
        Some w \<Rightarrow> Inr (st\<lparr>il_warnings := il_warnings st @ [w]\<rparr>)
      | None \<Rightarrow>
          (case select_document_by_hash (il_db st) (bd_contentHash doc) of
             Some existing \<Rightarrow>
               Inr (st\<lparr>il_duplicatesSkipped := il_duplicatesSkipped st + 1,
                       il_warnings := il_warnings st @
                         [DuplicateWarning (bd_title doc) (take 12 (bd_contentHash doc))]\<rparr>)
           | None \<Rightarrow>
               (case import_document H flt (il_db st) doc of
                  Inl failure \<Rightarrow> Inl failure
                | Inr (insertedChunkCount, db') \<Rightarrow>
                    Inr (st\<lparr>il_db := db',
                            il_chunksInserted := il_chunksInserted st + insertedChunkCount,
                            il_documentsImported := il_documentsImported st + 1\<rparr>))))"

fun import_lines ::
    "(jsstring \<Rightarrow> jsstring) \<Rightarrow> faults \<Rightarrow> nat option \<Rightarrow> ImportLoop \<Rightarrow> BackupDoc list
     \<Rightarrow> (error \<times> DB) + ImportLoop" where
  "import_lines H flt expected st [] = Inr st"
| "import_lines H flt expected st (doc # rest) =
     (case import_line H flt expected st doc of
        Inl failure \<Rightarrow> Inl failure
      | Inr st' \<Rightarrow> import_lines H flt expected st' rest)"

definition title_to_imported_ids :: "DB \<Rightarrow> BackupDoc list \<Rightarrow> (jsstring \<times> nat list) list" where
  "title_to_imported_ids db lines =
     foldl (\<lambda>m doc. (case select_document_by_hash db (bd_contentHash doc) of
                        None \<Rightarrow> m
                      | Some inserted \<Rightarrow> push_to (bd_title doc) (d_id inserted) m)) [] lines"

definition backup_relation_rows ::
    "(jsstring \<times> nat list) list \<Rightarrow> BackupDoc \<Rightarrow> RelationRow list" where
  "backup_relation_rows titleToImportedIds doc =
     (case normalizeRelations (bd_relations doc) of
        None \<Rightarrow> []
      | Some rels \<Rightarrow>
          (case map_of titleToImportedIds (bd_title doc) of
             None \<Rightarrow> []
           | Some sourceIds \<Rightarrow>
               concat (map (\<lambda>rel.
                 if br_title rel \<noteq> bd_title doc
                 then (case map_of titleToImportedIds (br_title rel) of
                         None \<Rightarrow> []
                       | Some targetIds \<Rightarrow>
                           concat (map (\<lambda>sId. map (\<lambda>tId.
                             \<lparr>rr_relType = br_type rel, rr_sourceId = sId, rr_targetId = tId,
                              rr_weight = br_weight rel\<rparr>) targetIds) sourceIds))
                 else []) rels)))"

fun insert_each_relation :: "faults \<Rightarrow> DB \<Rightarrow> RelationRow list \<Rightarrow> (error \<times> DB) + DB" where
  "insert_each_relation flt db [] = Inr db"
| "insert_each_relation flt db (row # rest) =
     (if flt DocumentRelations db then Inl (DatabaseError, db)
      else insert_each_relation flt (snd (insert_relation db row)) rest)"

text \<open>\<open>importBackup\<close> returns its counters, or the error it throws, and the database as
  it leaves it.\<close>

definition import_start :: "DB \<Rightarrow> ImportLoop" where
  "import_start db = \<lparr>il_db = db, il_chunksInserted = 0, il_documentsImported = 0,
                      il_duplicatesSkipped = 0, il_warnings = []\<rparr>"

definition importBackup ::
    "(jsstring \<Rightarrow> jsstring) \<Rightarrow> faults \<Rightarrow> DB \<Rightarrow> BackupDoc list \<Rightarrow> nat option
     \<Rightarrow> (error + ImportResult) \<times> DB" where
  "importBackup H flt db lines expected =
     (if \<not> vr_valid (validateBackupLines lines) then (Inl InvalidBackup, db)
      else
        (case import_lines H flt expected (import_start db) lines of
           Inl (e, db') \<Rightarrow> (Inl e, db')
         | Inr st \<Rightarrow>
             (let titleToImportedIds = title_to_imported_ids (il_db st) lines
              in case insert_each_relation flt (il_db st)
                        (concat (map (backup_relation_rows titleToImportedIds) lines)) of
                   Inl (e, db') \<Rightarrow> (Inl e, db')
                 | Inr db' \<Rightarrow>
                     (Inr \<lparr>imp_chunksInserted = il_chunksInserted st,
                           imp_documentsImported = il_documentsImported st,
                           imp_duplicatesSkipped = il_duplicatesSkipped st,
                           imp_warnings = il_warnings st\<rparr>, db'))))"

definition no_faults :: faults where
  "no_faults t db = False"

text \<open>Two lines with one content hash, the SHA-256 of \<open>abc\<close>, which is the hash of title
  \<open>ab\<close> with content \<open>c\<close> and of title \<open>a\<close> with content \<open>bc\<close>. The first names the
  second as a relation.\<close>

definition shared_hash_backup :: "BackupDoc list" where
  "shared_hash_backup =
     [\<lparr>bd_chunks = [], bd_communityId = None, bd_content = ascii ''c'',
       bd_contentHash = ascii ''ba7816bf8f01cfea414140de5dae2223b00361a396177a9cb410ff61f20015ad'',
       bd_metadata = [], bd_relations = Some (RelTitles [ascii ''a'']), bd_title = ascii ''ab''\<rparr>,
      \<lparr>bd_chunks = [], bd_communityId = None, bd_content = ascii ''bc'',
       bd_contentHash = ascii ''ba7816bf8f01cfea414140de5dae2223b00361a396177a9cb410ff61f20015ad'',
       bd_metadata = [], bd_relations = None, bd_title = ascii ''a''\<rparr>]"

text \<open>A backup of two documents, the second with two chunks, and a database whose third
  insert of a junction row fails.\<close>

definition junction_fault :: faults where
  "junction_fault t db \<longleftrightarrow> t = ChunkSources \<and> chunkSources_seq db = 2"

definition two_line_backup :: "BackupDoc list" where
  "two_line_backup =
     [\<lparr>bd_chunks = [\<lparr>bc_embedding = [1, 0], bc_endIndex = 5, bc_startIndex = 0,
                      bc_text = ascii ''first'', bc_tokenCount = 2\<rparr>],
       bd_communityId = None, bd_content = ascii ''first'', bd_contentHash = ascii ''h1'',
       bd_metadata = [], bd_relations = None, bd_title = ascii ''one''\<rparr>,
      \<lparr>bd_chunks = [\<lparr>bc_embedding = [0, 1], bc_endIndex = 6, bc_startIndex = 0,
                      bc_text = ascii ''second'', bc_tokenCount = 2\<rparr>,
                    \<lparr>bc_embedding = [1, 1], bc_endIndex = 12, bc_startIndex = 7,
                      bc_text = ascii ''third'', bc_tokenCount = 2\<rparr>],
       bd_communityId = None, bd_content = ascii ''second third'', bd_contentHash = ascii ''h2'',
       bd_metadata = [], bd_relations = None, bd_title = ascii ''two''\<rparr>]"

definition interrupted_db :: DB where
  "interrupted_db = snd (importBackup id junction_fault empty_db two_line_backup None)"

subsection \<open>One content hash under two titles\<close>

text \<open>
  C6 says that no row of \<open>document_relations\<close> relates a document to itself.
  \<open>importBackup\<close> files the id of the row it finds by content hash under the title of the
  backup line. Two lines with one hash and two titles put one id under both titles, and
  the comparison of titles lets the pair through: the backup of two such lines is valid,
  its import on the empty database returns without an error, and the only relation it
  leaves is from document 1 to document 1.
\<close>

theorem importBackup_self_relation:
  "fst (importBackup H no_faults empty_db shared_hash_backup None) =
     Inr \<lparr>imp_chunksInserted = 0, imp_documentsImported = 1, imp_duplicatesSkipped = 1,
          imp_warnings = [DuplicateWarning (ascii ''a'') (ascii ''ba7816bf8f01'')]\<rparr> \<and>
   map (\<lambda>x. (r_sourceId x, r_targetId x))
     (documentRelations (snd (importBackup H no_faults empty_db shared_hash_backup None))) = [(1, 1)]"
  by code_simp

subsection \<open>A failed import leaves whole documents\<close>

lemma rollback_rows: "same_rows db (rollback db failed)"
  by (simp add: same_rows_def rollback_def)

lemma import_document_failure:
  assumes "import_document H flt db doc = Inl (e, db')"
  shows "same_rows db db'"
  using assms rollback_rows
  by (auto simp: import_document_def transaction_def split: sum.splits prod.splits if_splits)

lemma import_line_failure:
  assumes "import_line H flt expected st doc = Inl (e, db')"
  shows "same_rows (il_db st) db' \<and>
         select_document_by_hash db' (bd_contentHash doc) = None"
proof -
  from assms have n: "select_document_by_hash (il_db st) (bd_contentHash doc) = None"
    and f: "import_document H flt (il_db st) doc = Inl (e, db')"
    by (auto simp: import_line_def split: option.splits sum.splits prod.splits)
  have s: "same_rows (il_db st) db'" using f by (rule import_document_failure)
  then have "select_document_by_hash db' (bd_contentHash doc) = None"
    using n by (simp add: select_document_by_hash_def same_rows_def)
  then show ?thesis using s by simp
qed

lemma import_lines_failure:
  assumes "import_lines H flt expected st lines = Inl (e, db')"
  shows "\<exists>k stk. k < length lines \<and> import_lines H flt expected st (take k lines) = Inr stk \<and>
           same_rows (il_db stk) db' \<and>
           select_document_by_hash db' (bd_contentHash (lines ! k)) = None"
  using assms
proof (induction lines arbitrary: st)
  case Nil
  then show ?case by simp
next
  case (Cons doc rest)
  show ?case
  proof (cases "import_line H flt expected st doc")
    case (Inl failure)
    then have "import_line H flt expected st doc = Inl (e, db')" using Cons.prems by simp
    from import_line_failure [OF this]
    have "0 < length (doc # rest) \<and> import_lines H flt expected st (take 0 (doc # rest)) = Inr st \<and>
           same_rows (il_db st) db' \<and>
           select_document_by_hash db' (bd_contentHash ((doc # rest) ! 0)) = None"
      by simp
    then show ?thesis by blast
  next
    case (Inr st')
    then have "import_lines H flt expected st' rest = Inl (e, db')" using Cons.prems by simp
    from Cons.IH [OF this] obtain k stk where
      k: "k < length rest" "import_lines H flt expected st' (take k rest) = Inr stk"
         "same_rows (il_db stk) db'"
         "select_document_by_hash db' (bd_contentHash (rest ! k)) = None"
      by blast
    have "Suc k < length (doc # rest) \<and>
          import_lines H flt expected st (take (Suc k) (doc # rest)) = Inr stk \<and>
          same_rows (il_db stk) db' \<and>
          select_document_by_hash db' (bd_contentHash ((doc # rest) ! Suc k)) = None"
      using k Inr by simp
    then show ?thesis by blast
  qed
qed

lemma insert_each_relation_failure:
  assumes "insert_each_relation flt db rows = Inl (e, db')"
  shows "same_rows db db'"
  using assms
proof (induction rows arbitrary: db)
  case Nil
  then show ?case by simp
next
  case (Cons row rows)
  show ?case
  proof (cases "flt DocumentRelations db")
    case True
    then show ?thesis using Cons.prems by (simp add: same_rows_refl)
  next
    case False
    then have "insert_each_relation flt (snd (insert_relation db row)) rows = Inl (e, db')"
      using Cons.prems by simp
    from Cons.IH [OF this] insert_relation_rows [of db row] show ?thesis
      by (rule same_rows_trans [rotated])
  qed
qed

text \<open>
  C7. When \<open>importBackup\<close> fails with a database error, whichever insert failed, the
  document, chunk and junction rows are those of the complete import of the first \<open>k\<close>
  lines, for some \<open>k\<close>: either the insert of a relation failed after all lines
  (\<open>k = length lines\<close>), or an insert for line \<open>k\<close> failed, its transaction was undone, and
  no row holds the content hash of that line.
\<close>

theorem importBackup_atomic:
  assumes "importBackup H flt db lines expected = (Inl DatabaseError, db')"
  shows "\<exists>k st. k \<le> length lines \<and>
           import_lines H flt expected (import_start db) (take k lines) = Inr st \<and>
           same_rows (il_db st) db' \<and>
           (k = length lines \<or> select_document_by_hash db' (bd_contentHash (lines ! k)) = None)"
proof (cases "import_lines H flt expected (import_start db) lines")
  case (Inl failure)
  obtain e d where f: "failure = (e, d)" by (cases failure)
  have v: "vr_valid (validateBackupLines lines)"
    using assms by (auto simp: importBackup_def split: if_splits)
  have "d = db'" using assms v Inl f by (simp add: importBackup_def)
  then have "import_lines H flt expected (import_start db) lines = Inl (e, db')"
    using Inl f by simp
  from import_lines_failure [OF this] show ?thesis by (meson less_imp_le)
next
  case (Inr st)
  have v: "vr_valid (validateBackupLines lines)"
    using assms by (auto simp: importBackup_def split: if_splits)
  obtain e where "insert_each_relation flt (il_db st)
       (concat (map (backup_relation_rows (title_to_imported_ids (il_db st) lines)) lines)) = Inl (e, db')"
    using assms v Inr by (auto simp: importBackup_def Let_def split: sum.splits prod.splits)
  then have "same_rows (il_db st) db'" by (rule insert_each_relation_failure)
  then have "length lines \<le> length lines \<and>
           import_lines H flt expected (import_start db) (take (length lines) lines) = Inr st \<and>
           same_rows (il_db st) db' \<and>
           (length lines = length lines \<or>
            select_document_by_hash db' (bd_contentHash (lines ! length lines)) = None)"
    using Inr by simp
  then show ?thesis by blast
qed

theorem importBackup_atomic_witness:
  "fst (importBackup id junction_fault empty_db two_line_backup None) = Inl DatabaseError \<and>
   map d_title (documents interrupted_db) = [ascii ''one''] \<and>
   map c_text (chunks interrupted_db) = [ascii ''first''] \<and>
   map cs_documentId (chunkSources interrupted_db) = [1] \<and>
   (\<exists>k st. k \<le> 2 \<and>
      import_lines id junction_fault None (import_start empty_db) (take k two_line_backup) = Inr st \<and>
      same_rows (il_db st) interrupted_db \<and>
      (k = 2 \<or> select_document_by_hash interrupted_db (bd_contentHash (two_line_backup ! k)) = None))"
proof -
  have e: "fst (importBackup id junction_fault empty_db two_line_backup None) = Inl DatabaseError \<and>
      map d_title (documents interrupted_db) = [ascii ''one''] \<and>
      map c_text (chunks interrupted_db) = [ascii ''first''] \<and>
      map cs_documentId (chunkSources interrupted_db) = [1]"
    by code_simp
  then have "importBackup id junction_fault empty_db two_line_backup None =
               (Inl DatabaseError, interrupted_db)"
    by (simp add: interrupted_db_def prod_eq_iff)
  from importBackup_atomic [OF this] have
    "\<exists>k st. k \<le> length two_line_backup \<and>
      import_lines id junction_fault None (import_start empty_db) (take k two_line_backup) = Inr st \<and>
      same_rows (il_db st) interrupted_db \<and>
      (k = length two_line_backup \<or>
       select_document_by_hash interrupted_db (bd_contentHash (two_line_backup ! k)) = None)" .
  moreover have "length two_line_backup = 2" by (simp add: two_line_backup_def)
  ultimately show ?thesis using e by simp
qed

end
